theory Spec2Isabelle
  imports Main "HOL-Library.Word" "HOL-Library.Log_Nat"
begin

section \<open>Errors (errors/errors.go)\<close>

text \<open>
  Go's \<^verbatim>\<open>error\<close> values, as far as the module builds and inspects them: a sentinel made
  by \<^verbatim>\<open>errors.New\<close>, an error wrapped by \<^verbatim>\<open>fmt.Errorf("%w ...")\<close>, and the module's own
  \<^verbatim>\<open>*ProcessingError\<close> (category, operation, wrapped error, retryable flag).
  A nil error is \<open>None :: error option\<close>.
\<close>

datatype Category =
    CategoryDecode | CategoryEncode | CategoryPipeline | CategoryStorage
  | CategoryConfig | CategoryTransient | CategoryInput

datatype error =
    Sentinel string
  | Errorf string error
  | ProcessingError Category string error bool

definition ErrUnsupportedFormat :: error where
  "ErrUnsupportedFormat = Sentinel ''unsupported image format''"

definition ErrInvalidDimensions :: error where
  "ErrInvalidDimensions = Sentinel ''invalid dimensions''"

definition ErrEmptyInput :: error where
  "ErrEmptyInput = Sentinel ''empty input''"

definition ErrWorkerPoolFull :: error where
  "ErrWorkerPoolFull = Sentinel ''worker pool queue full''"

text \<open>Sentinels of the standard library that the module returns or compares with.\<close>

definition io_EOF :: error where
  "io_EOF = Sentinel ''EOF''"

definition io_ErrUnexpectedEOF :: error where
  "io_ErrUnexpectedEOF = Sentinel ''unexpected EOF''"


text \<open>\<^verbatim>\<open>New\<close> creates a non-retryable ProcessingError, \<^verbatim>\<open>Transient\<close> a retryable one.\<close>

definition apperrors_New :: "Category \<Rightarrow> string \<Rightarrow> error \<Rightarrow> error" where
  "apperrors_New category opn err = ProcessingError category opn err False"


definition apperrors_Wrap :: "Category \<Rightarrow> string \<Rightarrow> error option \<Rightarrow> error option" where
  "apperrors_Wrap category opn err =
     (case err of None \<Rightarrow> None | Some e \<Rightarrow> Some (apperrors_New category opn e))"

text \<open>
  \<^verbatim>\<open>IsRetryable\<close>: \<^verbatim>\<open>errors.As\<close> walks the Unwrap chain to the first ProcessingError and
  the flag of that one is returned; a chain without one is not retryable.
\<close>

fun IsRetryable :: "error \<Rightarrow> bool" where
  "IsRetryable (Sentinel _) = False"
| "IsRetryable (Errorf _ e) = IsRetryable e"
| "IsRetryable (ProcessingError _ _ _ r) = r"

section \<open>Channels\<close>

text \<open>
  A Go channel: the buffered values (oldest first), the capacity given to \<^verbatim>\<open>make\<close>, and
  whether it has been closed. Closing a closed channel and sending on a closed channel
  panic.
\<close>

record 'a chan =
  chan_buf :: "'a list"
  chan_cap :: nat
  chan_closed :: bool

datatype panic = CloseOfClosedChannel | SendOnClosedChannel

definition make_chan :: "nat \<Rightarrow> 'a chan" where
  "make_chan n = \<lparr>chan_buf = [], chan_cap = n, chan_closed = False\<rparr>"

definition close_chan :: "'a chan \<Rightarrow> panic + 'a chan" where
  "close_chan c = (if chan_closed c then Inl CloseOfClosedChannel
                   else Inr (c\<lparr>chan_closed := True\<rparr>))"

text \<open>
  The send case of a \<^verbatim>\<open>select\<close> that has a \<^verbatim>\<open>default\<close>: the send proceeds when the buffer
  has room, otherwise the default case runs (\<open>WouldBlock\<close>). A receiver parked on the
  channel means an empty buffer, so for a capacity of at least one "has room" covers the
  hand-over to a waiting receiver as well.
\<close>

datatype 'a try_send = Sent "'a chan" | WouldBlock | SendPanics

definition chan_try_send :: "'a chan \<Rightarrow> 'a \<Rightarrow> 'a try_send" where
  "chan_try_send c x =
     (if chan_closed c then SendPanics
      else if length (chan_buf c) < chan_cap c then Sent (c\<lparr>chan_buf := chan_buf c @ [x]\<rparr>)
      else WouldBlock)"

section \<open>Configuration (config/config.go)\<close>

text \<open>
  The fields of \<^verbatim>\<open>Config\<close> the orchestration reads. Go's \<^verbatim>\<open>int\<close>, \<^verbatim>\<open>int64\<close> and
  \<^verbatim>\<open>time.Duration\<close> are written as \<open>int\<close>; no operation on them below leaves the 64-bit
  range for values inside it, except the loop counter of the retry loop at
  \<open>MaxRetries = 2^63 - 1\<close>.
\<close>

record Config =
  WorkerCount :: int
  QueueSize :: int
  JobTimeout :: int
  MaxRetries :: int
  RetryDelay :: int
  DefaultQuality :: int
  MaxImageBytes :: int
  ChunkSize :: int

section \<open>The execution scope (context.Context)\<close>

text \<open>
  A context is cancelled from outside, at a moment the code does not choose. What the
  code can see of it is the sequence of its own observations, in program order: each
  \<^verbatim>\<open>ctx.Err()\<close> and each \<^verbatim>\<open>select\<close> on \<^verbatim>\<open>ctx.Done()\<close> takes the next element, \<open>None\<close>
  for "not cancelled" and \<open>Some e\<close> for "cancelled, \<^verbatim>\<open>ctx.Err()\<close> is \<open>e\<close>". When the list is
  used up the context is seen as live.
\<close>

type_synonym Context = "error option list"

fun ctx_Err :: "Context \<Rightarrow> error option \<times> Context" where
  "ctx_Err [] = (None, [])"
| "ctx_Err (ob # obs) = (ob, obs)"

text \<open>
  \<^verbatim>\<open>select { case <-ctx.Done(): ... case <-time.After(delay): }\<close>: the next observation
  says which case ran, \<open>Some e\<close> for the first (then \<^verbatim>\<open>ctx.Err()\<close> is \<open>e\<close>), \<open>None\<close> for the
  timer.
\<close>

definition select_Done_or_After :: "Context \<Rightarrow> error option \<times> Context" where
  "select_Done_or_After ctx = ctx_Err ctx"

section \<open>Image state (core types)\<close>

type_synonym byte = "8 word"

text \<open>
  \<^verbatim>\<open>Format\<close> and \<^verbatim>\<open>ColorSpace\<close> are string types in the source.
\<close>

type_synonym Format = string

definition FormatJPEG :: Format where "FormatJPEG = ''jpeg''"
definition FormatPNG :: Format where "FormatPNG = ''png''"
definition FormatWebP :: Format where "FormatWebP = ''webp''"
definition FormatUnknown :: Format where "FormatUnknown = ''unknown''"

text \<open>
  A Go map is a reference: copying a struct that holds one copies the reference, and a
  write through either copy is seen through both. The store holds the maps
  (\<^verbatim>\<open>map[string]string\<close>); a map value is an address into it, and nil is \<open>None\<close>.
  \<^verbatim>\<open>make\<close> allocates the next address.
\<close>

type_synonym addr = nat
type_synonym MapStore = "(string \<rightharpoonup> string) list"

definition make_map :: "MapStore \<Rightarrow> addr \<times> MapStore" where
  "make_map h = (length h, h @ [Map.empty])"

definition map_store :: "MapStore \<Rightarrow> addr \<Rightarrow> string \<Rightarrow> string \<Rightarrow> MapStore" where
  "map_store h a k v = h[a := (h ! a)(k \<mapsto> v)]"

definition map_load :: "MapStore \<Rightarrow> addr \<Rightarrow> string \<Rightarrow> string option" where
  "map_load h a k = (if a < length h then (h ! a) k else None)"

text \<open>
  The decoded pixel buffer is \<^verbatim>\<open>interface{}\<close> in the source: an \<^verbatim>\<open>image.Image\<close> of the
  standard library (here its bounds \<open>Dx\<close>, \<open>Dy\<close> and a handle for the pixels) or a value
  of another backend, on which the type assertion \<^verbatim>\<open>img.Image.(image.Image)\<close> fails.
\<close>

datatype DecodedImage = GoImage (Dx: int) (Dy: int) (pixels: nat) | BackendImage nat

record Metadata =
  Width :: int
  Height :: int
  MetaFormat :: Format
  ColorSpace :: string
  HasAlpha :: bool
  SizeBytes :: int
  EXIF :: "addr option"
  HasEXIF :: bool
  Orientation :: int

record ImageData =
  Data :: "byte list"
  Format :: Format
  Image :: "DecodedImage option"
  Meta :: Metadata
  OriginalSize :: int

record ProcessingResult =
  Primary :: "ImageData option"

section \<open>Steps and hooks\<close>

text \<open>
  A \<^verbatim>\<open>Step\<close> is an interface: any implementation may keep state and act on the world.
  \<open>'w\<close> is that state; \<^verbatim>\<open>Execute\<close> takes the \<^verbatim>\<open>*ImageData\<close> (nil is \<open>None\<close>) and returns
  the pair \<^verbatim>\<open>(*ImageData, error)\<close> as it is, with the state afterwards. A \<^verbatim>\<open>Hook\<close> observes
  a step before and after it runs. Wall-clock durations are left out.
\<close>

record 'w Step =
  Name :: string
  Execute :: "'w \<Rightarrow> ImageData option \<Rightarrow> (ImageData option \<times> error option) \<times> 'w"

record 'w Hook =
  BeforeStep :: "string \<Rightarrow> ImageData option \<Rightarrow> 'w \<Rightarrow> 'w"
  AfterStep :: "string \<Rightarrow> ImageData option \<Rightarrow> error option \<Rightarrow> 'w \<Rightarrow> 'w"

section \<open>The processor: construction and lifecycle (core/processor.go)\<close>

text \<open>
  The worker-pool side of \<^verbatim>\<open>Processor\<close>. \<open>once_done\<close> is the state of \<^verbatim>\<open>sync.Once\<close>,
  \<open>wg\<close> the counter of the \<^verbatim>\<open>sync.WaitGroup\<close>, \<open>workers\<close> the worker goroutines that
  have been launched and have not returned yet, and \<open>launched\<close> counts every worker
  goroutine ever started (it is not a field of the source; it makes "launches exactly
  once" statable). The two counters are \<^verbatim>\<open>int64\<close> updated with \<^verbatim>\<open>atomic.AddInt64\<close>.
\<close>

record ('j, 'w) Processor =
  cfg :: Config
  hooks :: "'w Hook list"
  jobQueue :: "'j chan"
  shutdown :: "unit chan"
  once_done :: bool
  wg :: int
  workers :: nat
  launched :: nat
  processedCount :: "64 word"
  errorCount :: "64 word"

definition New :: "Config \<Rightarrow> ('j, 'w) Processor" where
  "New c =
     (let queueSize = (if QueueSize c \<le> 0 then 256 else QueueSize c)
      in \<lparr>cfg = c,
          hooks = [],
          jobQueue = make_chan (nat queueSize),
          shutdown = make_chan 0,
          once_done = False,
          wg = 0,
          workers = 0,
          launched = 0,
          processedCount = 0,
          errorCount = 0\<rparr>)"

definition AddHook :: "('j, 'w) Processor \<Rightarrow> 'w Hook \<Rightarrow> ('j, 'w) Processor" where
  "AddHook p h = p\<lparr>hooks := hooks p @ [h]\<rparr>"

text \<open>The loop of \<^verbatim>\<open>Start\<close>: \<^verbatim>\<open>for i := 0; i < workerCount; i++ { p.wg.Add(1); go p.worker() }\<close>.\<close>

function launch_workers :: "int \<Rightarrow> int \<Rightarrow> ('j, 'w) Processor \<Rightarrow> ('j, 'w) Processor" where
  "launch_workers i workerCount p =
     (if i < workerCount
      then launch_workers (i + 1) workerCount
             (p\<lparr>wg := wg p + 1, workers := Suc (workers p), launched := Suc (launched p)\<rparr>)
      else p)"
  by pat_completeness auto
termination
  by (relation "measure (\<lambda>(i, workerCount, p). nat (workerCount - i))") auto

declare launch_workers.simps [simp del]

text \<open>
  \<^verbatim>\<open>Start\<close> runs its body under \<^verbatim>\<open>p.once.Do\<close>; \<open>NumCPU\<close> is what \<^verbatim>\<open>runtime.NumCPU()\<close>
  returns on the machine.
\<close>

definition Start :: "int \<Rightarrow> ('j, 'w) Processor \<Rightarrow> ('j, 'w) Processor" where
  "Start NumCPU p =
     (if once_done p then p
      else (let workerCount = (if WorkerCount (cfg p) \<le> 0 then NumCPU else WorkerCount (cfg p))
            in (launch_workers 0 workerCount p)\<lparr>once_done := True\<rparr>))"

text \<open>
  \<^verbatim>\<open>Stop\<close>: \<^verbatim>\<open>close(p.shutdown); p.wg.Wait()\<close>. The close panics on a closed channel.
  After the wait every worker has returned (each one calls \<^verbatim>\<open>wg.Done\<close> when it sees the
  closed channel), so the counter is zero and no worker is left.
\<close>

definition Stop :: "('j, 'w) Processor \<Rightarrow> panic + ('j, 'w) Processor" where
  "Stop p =
     (case close_chan (shutdown p) of
        Inl pn \<Rightarrow> Inl pn
      | Inr sh \<Rightarrow> Inr (p\<lparr>shutdown := sh, wg := 0, workers := 0\<rparr>))"

text \<open>
  \<^verbatim>\<open>Submit\<close>: a \<^verbatim>\<open>select\<close> with the send on the job queue and a default case. The result
  is the processor afterwards and the returned error.
\<close>

definition Submit :: "('j, 'w) Processor \<Rightarrow> 'j \<Rightarrow> panic + (('j, 'w) Processor \<times> error option)" where
  "Submit p job =
     (case chan_try_send (jobQueue p) job of
        Sent q \<Rightarrow> Inr (p\<lparr>jobQueue := q\<rparr>, None)
      | WouldBlock \<Rightarrow> Inr (p, Some (apperrors_New CategoryPipeline ''submit'' ErrWorkerPoolFull))
      | SendPanics \<Rightarrow> Inl SendOnClosedChannel)"

text \<open>
  What holds of the job queue of every processor made by \<^verbatim>\<open>New\<close>: nothing in the module
  closes it, its capacity is at least one, and the buffer never exceeds the capacity.
\<close>

definition queue_ok :: "('j, 'w) Processor \<Rightarrow> bool" where
  "queue_ok p \<longleftrightarrow>
     \<not> chan_closed (jobQueue p) \<and> 1 \<le> chan_cap (jobQueue p) \<and>
     length (chan_buf (jobQueue p)) \<le> chan_cap (jobQueue p)"

definition queue_full :: "('j, 'w) Processor \<Rightarrow> bool" where
  "queue_full p \<longleftrightarrow> length (chan_buf (jobQueue p)) = chan_cap (jobQueue p)"

section \<open>Lifecycle and submission: properties\<close>

lemma New_queue_ok: "queue_ok (New c)"
  by (auto simp add: queue_ok_def New_def make_chan_def Let_def)

lemma Start_jobQueue: "jobQueue (Start n p) = jobQueue p"
proof -
  have "jobQueue (launch_workers i k p) = jobQueue p" for i k
  proof (induction i k p rule: launch_workers.induct)
    case (1 i k p)
    then show ?case by (subst launch_workers.simps) simp
  qed
  then show ?thesis by (simp add: Start_def Let_def)
qed

lemma launch_workers_launched:
  "launched (launch_workers i k p) = launched p + nat (k - i)"
proof (induction i k p rule: launch_workers.induct)
  case (1 i k p)
  show ?case
  proof (cases "i < k")
    case True
    then have "launched (launch_workers i k p) = Suc (launched p) + nat (k - (i + 1))"
      using "1.IH" by (subst launch_workers.simps) simp
    with True show ?thesis by simp
  next
    case False
    then show ?thesis by (subst launch_workers.simps) simp
  qed
qed

lemma launch_workers_once: "once_done (launch_workers i k p) = once_done p"
proof (induction i k p rule: launch_workers.induct)
  case (1 i k p)
  then show ?case by (subst launch_workers.simps) simp
qed

lemma once_done_Start: "once_done (Start n p)"
  by (simp add: Start_def Let_def)

definition example_cfg :: Config where
  "example_cfg = \<lparr>WorkerCount = 2, QueueSize = 1, JobTimeout = 0, MaxRetries = 1, RetryDelay = 0,
     DefaultQuality = 85, MaxImageBytes = 4, ChunkSize = 0\<rparr>"



lemma Submit_full:
  assumes "queue_ok p" "queue_full p"
  shows "Submit p job = Inr (p, Some (apperrors_New CategoryPipeline ''submit'' ErrWorkerPoolFull))"
proof -
  from assms have "chan_try_send (jobQueue p) job = WouldBlock"
    by (simp add: chan_try_send_def queue_ok_def queue_full_def)
  then show ?thesis by (simp add: Submit_def)
qed

lemma Submit_room:
  assumes "queue_ok p" "\<not> queue_full p"
  shows "Submit p job =
     Inr (p\<lparr>jobQueue := (jobQueue p)\<lparr>chan_buf := chan_buf (jobQueue p) @ [job]\<rparr>\<rparr>, None)"
proof -
  from assms have "chan_try_send (jobQueue p) job
      = Sent ((jobQueue p)\<lparr>chan_buf := chan_buf (jobQueue p) @ [job]\<rparr>)"
    by (simp add: chan_try_send_def queue_ok_def queue_full_def)
  then show ?thesis by (simp add: Submit_def)
qed

lemma queue_ok_enqueue:
  assumes "queue_ok p" "\<not> queue_full p"
  shows "queue_ok (p\<lparr>jobQueue := (jobQueue p)\<lparr>chan_buf := chan_buf (jobQueue p) @ [job]\<rparr>\<rparr>)"
  using assms by (simp add: queue_ok_def queue_full_def)

text \<open>
  C3. On a processor whose job queue already holds as many jobs as its capacity, \<^verbatim>\<open>Submit\<close>
  returns the worker-pool-full error at once and leaves the processor, and so the queue,
  as it was; when the queue has room, the job is appended to the queue and no error is
  returned. There is one attempt, and the job is either in the queue or reported by the
  error.
\<close>

theorem Submit_backpressure:
  assumes "queue_ok p"
  shows "(queue_full p \<longrightarrow>
            Submit p job = Inr (p, Some (apperrors_New CategoryPipeline ''submit'' ErrWorkerPoolFull)))
       \<and> (\<not> queue_full p \<longrightarrow>
            Submit p job = Inr (p\<lparr>jobQueue := (jobQueue p)\<lparr>chan_buf := chan_buf (jobQueue p) @ [job]\<rparr>\<rparr>, None)
            \<and> queue_ok (p\<lparr>jobQueue := (jobQueue p)\<lparr>chan_buf := chan_buf (jobQueue p) @ [job]\<rparr>\<rparr>))
       \<and> Submit p job \<noteq> Inl SendOnClosedChannel"
proof (cases "queue_full p")
  case True
  then show ?thesis using Submit_full [OF assms True, of job] by simp
next
  case False
  then show ?thesis
    using Submit_room [OF assms False, of job] queue_ok_enqueue [OF assms False, of job] by simp
qed

theorem Submit_backpressure_witness:
  "queue_ok (New example_cfg :: (nat, unit) Processor) \<and> \<not> queue_full (New example_cfg :: (nat, unit) Processor)
   \<and> (\<exists>p1. Submit (New example_cfg :: (nat, unit) Processor) 7 = Inr (p1, None) \<and> chan_buf (jobQueue p1) = [7]
        \<and> queue_ok p1 \<and> queue_full p1
        \<and> Submit p1 8 = Inr (p1, Some (apperrors_New CategoryPipeline ''submit'' ErrWorkerPoolFull)))"
proof -
  let ?p0 = "New example_cfg :: (nat, unit) Processor"
  have ok0: "queue_ok ?p0" by (rule New_queue_ok)
  have nf0: "\<not> queue_full ?p0"
    by (simp add: queue_full_def New_def make_chan_def example_cfg_def)
  define p1 where "p1 = ?p0\<lparr>jobQueue := (jobQueue ?p0)\<lparr>chan_buf := chan_buf (jobQueue ?p0) @ [7]\<rparr>\<rparr>"
  have s0: "Submit ?p0 7 = Inr (p1, None)" and ok1: "queue_ok p1"
    using Submit_backpressure [OF ok0, of 7] nf0 unfolding p1_def by blast+
  have f1: "queue_full p1"
    by (simp add: p1_def queue_full_def New_def make_chan_def example_cfg_def)
  have b1: "chan_buf (jobQueue p1) = [7]"
    by (simp add: p1_def New_def make_chan_def example_cfg_def)
  have s1: "Submit p1 8 = Inr (p1, Some (apperrors_New CategoryPipeline ''submit'' ErrWorkerPoolFull))"
    using Submit_backpressure [OF ok1, of 8] f1 by blast
  from ok0 nf0 s0 ok1 f1 b1 s1 show ?thesis by blast
qed

text \<open>
  C7, as the code has it. \<^verbatim>\<open>Start\<close> is idempotent: the first call launches
  \<open>WorkerCount\<close> workers (\<open>NumCPU\<close> when \<open>WorkerCount \<le> 0\<close>), every later call changes
  nothing. \<^verbatim>\<open>Stop\<close> is not: the first call closes the shutdown channel and waits for the
  workers, and a call after a \<^verbatim>\<open>Stop\<close> that returned panics with "close of closed channel".
\<close>

theorem Start_once_Stop_once:
  "Start n (Start n p) = Start n p
   \<and> (once_done p \<longrightarrow> Start n p = p)
   \<and> (\<not> once_done p \<longrightarrow>
        launched (Start n p) =
          launched p + nat (if WorkerCount (cfg p) \<le> 0 then n else WorkerCount (cfg p)))
   \<and> (\<not> chan_closed (shutdown p) \<longrightarrow>
        Stop p = Inr (p\<lparr>shutdown := (shutdown p)\<lparr>chan_closed := True\<rparr>, wg := 0, workers := 0\<rparr>))
   \<and> (\<forall>p'. Stop p = Inr p' \<longrightarrow> Stop p' = Inl CloseOfClosedChannel)"
proof -
  have a: "Start n (Start n p) = Start n p"
    using once_done_Start [of n p] by (simp add: Start_def [of n "Start n p"])
  have b: "once_done p \<longrightarrow> Start n p = p"
    by (simp add: Start_def)
  have c: "\<not> once_done p \<longrightarrow>
        launched (Start n p) =
          launched p + nat (if WorkerCount (cfg p) \<le> 0 then n else WorkerCount (cfg p))"
    by (simp add: Start_def Let_def launch_workers_launched)
  have d: "\<not> chan_closed (shutdown p) \<longrightarrow>
        Stop p = Inr (p\<lparr>shutdown := (shutdown p)\<lparr>chan_closed := True\<rparr>, wg := 0, workers := 0\<rparr>)"
    by (simp add: Stop_def close_chan_def)
  have e: "\<forall>p'. Stop p = Inr p' \<longrightarrow> Stop p' = Inl CloseOfClosedChannel"
    by (auto simp: Stop_def close_chan_def split: if_splits)
  from a b c d e show ?thesis by blast
qed

theorem Start_once_Stop_once_witness:
  "\<not> once_done (New example_cfg :: (nat, unit) Processor)
   \<and> launched (Start 8 (New example_cfg :: (nat, unit) Processor)) = 2
   \<and> launched (Start 8 (Start 8 (New example_cfg :: (nat, unit) Processor))) = 2
   \<and> \<not> chan_closed (shutdown (New example_cfg :: (nat, unit) Processor))
   \<and> (\<exists>p'. Stop (New example_cfg :: (nat, unit) Processor) = Inr p' \<and> Stop p' = Inl CloseOfClosedChannel)"
proof -
  let ?p0 = "New example_cfg :: (nat, unit) Processor"
  note t = Start_once_Stop_once [of 8 ?p0]
  have n0: "\<not> once_done ?p0" by (simp add: New_def)
  have c0: "\<not> chan_closed (shutdown ?p0)" by (simp add: New_def make_chan_def)
  have l0: "launched ?p0 = 0" "WorkerCount (cfg ?p0) = 2" by (simp_all add: New_def example_cfg_def)
  from t n0 l0 have l1: "launched (Start 8 ?p0) = 2" by simp
  from t l1 have l2: "launched (Start 8 (Start 8 ?p0)) = 2" by simp
  from t c0 obtain p' where s: "Stop ?p0 = Inr p'" by blast
  with t have "Stop p' = Inl CloseOfClosedChannel" by blast
  with n0 l1 l2 c0 s show ?thesis by blast
qed

text \<open>C7 as stated fails: the second \<^verbatim>\<open>Stop\<close> on a fresh processor panics.\<close>

theorem Stop_twice_counterexample:
  "\<exists>p'. Stop (New example_cfg :: (nat, unit) Processor) = Inr p' \<and> Stop p' = Inl CloseOfClosedChannel"
  by (simp add: Stop_def close_chan_def New_def make_chan_def)

section \<open>The retry policy (runWithRetry in core/processor.go)\<close>

text \<open>
  The loop of \<^verbatim>\<open>runWithRetry\<close>. \<open>result\<close> and \<open>err\<close> are the two variables the loop
  assigns; \<open>attempts\<close> lists what each call of \<^verbatim>\<open>Execute\<close> returned, oldest first (it is
  not in the source; it makes the number of calls statable).
\<close>

function retry_loop ::
  "int \<Rightarrow> int \<Rightarrow> Context \<Rightarrow> 'w Step \<Rightarrow> ImageData option \<Rightarrow>
   ImageData option \<times> error option \<Rightarrow> (ImageData option \<times> error option) list \<Rightarrow> 'w \<Rightarrow>
   (ImageData option \<times> error option) \<times> (ImageData option \<times> error option) list \<times> Context \<times> 'w"
where
  "retry_loop i maxRetries ctx step img res attempts w =
     (if i \<le> maxRetries then
        (case Execute step w img of
           ((result, err), w') \<Rightarrow>
             (case err of
                None \<Rightarrow> ((result, err), attempts @ [(result, err)], ctx, w')
              | Some e \<Rightarrow>
                  if \<not> IsRetryable e then ((result, err), attempts @ [(result, err)], ctx, w')
                  else if i < maxRetries then
                    (case select_Done_or_After ctx of
                       (Some ce, ctx') \<Rightarrow>
                         ((None, apperrors_Wrap CategoryPipeline (Name step) (Some ce)),
                          attempts @ [(result, err)], ctx', w')
                     | (None, ctx') \<Rightarrow>
                         retry_loop (i + 1) maxRetries ctx' step img (result, err)
                           (attempts @ [(result, err)]) w')
                  else retry_loop (i + 1) maxRetries ctx step img (result, err)
                         (attempts @ [(result, err)]) w'))
      else (res, attempts, ctx, w))"
  by pat_completeness auto
termination
  by (relation "measure (\<lambda>(i, maxRetries, ctx, step, img, res, attempts, w). nat (maxRetries + 1 - i))") auto

declare retry_loop.simps [simp del]

definition runWithRetry ::
  "Config \<Rightarrow> Context \<Rightarrow> 'w Step \<Rightarrow> ImageData option \<Rightarrow> 'w \<Rightarrow>
   (ImageData option \<times> error option) \<times> (ImageData option \<times> error option) list \<times> Context \<times> 'w"
where
  "runWithRetry c ctx step img w = retry_loop 0 (MaxRetries c) ctx step img (None, None) [] w"



definition passing :: "nat Step" where
  "passing = \<lparr>Name = ''passing'', Execute = (\<lambda>w img. ((img, None), Suc w))\<rparr>"









section \<open>Buffered ingestion (utils/streaming.go)\<close>

text \<open>
  An \<^verbatim>\<open>io.Reader\<close> is an interface: a state \<open>'r\<close> and its \<^verbatim>\<open>Read\<close> method, which is given
  the length of the buffer \<^verbatim>\<open>p\<close> and returns the bytes it put there (\<^verbatim>\<open>n\<close> is their
  number) and the error.
\<close>

type_synonym 'r Read = "'r \<Rightarrow> nat \<Rightarrow> (byte list \<times> error option) \<times> 'r"

text \<open>
  \<^verbatim>\<open>bytes.Reader\<close> of the standard library, the reader that every test and example of
  the repository hands to the processor: the slice \<open>s\<close> and the read index \<open>i\<close>. At the
  end it returns \<^verbatim>\<open>(0, io.EOF)\<close>; before the end it copies what fits and returns a nil
  error, also for the last bytes.
\<close>

datatype bytes_Reader = BytesReader "byte list" nat

fun bytes_Read :: "bytes_Reader Read" where
  "bytes_Read (BytesReader s i) k =
     (if length s \<le> i then (([], Some io_EOF), BytesReader s i)
      else (let d = take k (drop i s) in ((d, None), BytesReader s (i + length d))))"

definition bytes_NewReader :: "byte list \<Rightarrow> bytes_Reader" where
  "bytes_NewReader b = BytesReader b 0"

text \<open>\<^verbatim>\<open>LimitedReader\<close> with its fields \<^verbatim>\<open>R\<close>, \<^verbatim>\<open>Max\<close> and \<^verbatim>\<open>n\<close>.\<close>

record 'r LimitedReader =
  lr_R :: 'r
  lr_Max :: int
  lr_n :: int

definition LimitedReader_Read :: "'r Read \<Rightarrow> 'r LimitedReader Read" where
  "LimitedReader_Read rd l k =
     (if lr_Max l \<le> lr_n l \<and> 0 < lr_Max l then (([], Some io_ErrUnexpectedEOF), l)
      else
        (let k' = (if 0 < lr_Max l
                   then (let remain = lr_Max l - lr_n l
                         in if remain < int k then nat remain else k)
                   else k)
         in (case rd (lr_R l) k' of
               ((d, err), r') \<Rightarrow> ((d, err), l\<lparr>lr_R := r', lr_n := lr_n l + int (length d)\<rparr>))))"

text \<open>
  The loop of \<^verbatim>\<open>DrainReader\<close>. A reader may return \<^verbatim>\<open>(0, nil)\<close> for ever, so the loop
  need not end: \<open>None\<close> is "does not return". What returns is the drained bytes or the
  error (then no buffer), the context's remaining observations and the reader.
  The pooled buffer starts empty (\<^verbatim>\<open>AcquireBuffer\<close> resets it) and \<^verbatim>\<open>Process\<close> copies
  the bytes out before releasing it, so the pool is not visible in the result.
\<close>

partial_function (option) drain_loop ::
  "'r Read \<Rightarrow> nat \<Rightarrow> Context \<Rightarrow> 'r \<Rightarrow> byte list \<Rightarrow> ((error + byte list) \<times> Context \<times> 'r) option"
where
  "drain_loop rd chunkSize ctx r buf =
     (case ctx_Err ctx of
        (Some ce, ctx') \<Rightarrow> Some (Inl ce, ctx', r)
      | (None, ctx') \<Rightarrow>
          (case rd r chunkSize of
             ((d, err), r') \<Rightarrow>
               (let buf' = (if 0 < length d then buf @ d else buf)
                in if err = Some io_EOF then Some (Inr buf', ctx', r')
                   else (case err of
                           Some e \<Rightarrow> Some (Inl e, ctx', r')
                         | None \<Rightarrow> drain_loop rd chunkSize ctx' r' buf'))))"

declare drain_loop.simps [code]

definition DrainReader ::
  "Context \<Rightarrow> 'r Read \<Rightarrow> 'r \<Rightarrow> int \<Rightarrow> ((error + byte list) \<times> Context \<times> 'r) option"
where
  "DrainReader ctx rd r chunkSize =
     drain_loop rd (nat (if chunkSize \<le> 0 then 32 * 1024 else chunkSize)) ctx r []"

section \<open>Format detection (utils) and the synchronous entry point (core/processor.go)\<close>

text \<open>
  \<^verbatim>\<open>DetectFormat\<close> looks at the magic bytes and falls back on \<^verbatim>\<open>http.DetectContentType\<close>
  of the standard library, which is the parameter \<open>sniff\<close> here.
\<close>

definition DetectFormat :: "(byte list \<Rightarrow> string) \<Rightarrow> byte list \<Rightarrow> string" where
  "DetectFormat sniff data =
     (if length data < 4 then ''unknown''
      else if data ! 0 = 0xFF \<and> data ! 1 = 0xD8 \<and> data ! 2 = 0xFF then ''jpeg''
      else if data ! 0 = 0x89 \<and> data ! 1 = 0x50 \<and> data ! 2 = 0x4E \<and> data ! 3 = 0x47 then ''png''
      else if 12 \<le> length data \<and>
              data ! 0 = 0x52 \<and> data ! 1 = 0x49 \<and> data ! 2 = 0x46 \<and> data ! 3 = 0x46 \<and>
              data ! 8 = 0x57 \<and> data ! 9 = 0x45 \<and> data ! 10 = 0x42 \<and> data ! 11 = 0x50
           then ''webp''
      else (let ct = sniff data
            in if ct = ''image/jpeg'' then ''jpeg''
               else if ct = ''image/png'' then ''png''
               else if ct = ''image/webp'' then ''webp''
               else ''unknown''))"

definition contentTypeToFormat :: "string \<Rightarrow> Format" where
  "contentTypeToFormat ct =
     (if ct = ''image/jpeg'' \<or> ct = ''image/jpg'' then FormatJPEG
      else if ct = ''image/png'' then FormatPNG
      else if ct = ''image/webp'' then FormatWebP
      else FormatUnknown)"

definition CloneBytes :: "byte list \<Rightarrow> byte list" where
  "CloneBytes b = b"

text \<open>
  A \<^verbatim>\<open>Source\<close>: the reader (its state and its \<^verbatim>\<open>Read\<close> method) and the hints.
\<close>

record 'r Source =
  Reader :: 'r
  Reader_Read :: "'r Read"
  ContentType :: string
  SourceName :: string
  Size :: int

definition zero_Metadata :: Metadata where
  "zero_Metadata = \<lparr>Width = 0, Height = 0, MetaFormat = [], ColorSpace = [], HasAlpha = False,
     SizeBytes = 0, EXIF = None, HasEXIF = False, Orientation = 0\<rparr>"

definition notifyBefore :: "('j, 'w) Processor \<Rightarrow> string \<Rightarrow> ImageData option \<Rightarrow> 'w \<Rightarrow> 'w" where
  "notifyBefore p name img w = fold (\<lambda>h. BeforeStep h name img) (hooks p) w"

definition notifyAfter ::
  "('j, 'w) Processor \<Rightarrow> string \<Rightarrow> ImageData option \<Rightarrow> error option \<Rightarrow> 'w \<Rightarrow> 'w" where
  "notifyAfter p name img err w = fold (\<lambda>h. AfterStep h name img err) (hooks p) w"

text \<open>
  Part 3 of \<^verbatim>\<open>Process\<close>, the loop over the steps: \<open>Inl\<close> is the error of an early
  return, \<open>Inr\<close> the value of \<^verbatim>\<open>current\<close> after the last step.
\<close>

fun run_steps ::
  "('j, 'w) Processor \<Rightarrow> Context \<Rightarrow> 'w Step list \<Rightarrow> ImageData option \<Rightarrow> 'w \<Rightarrow>
   (error + ImageData option) \<times> ('j, 'w) Processor \<times> Context \<times> 'w"
where
  "run_steps p ctx [] current w = (Inr current, p, ctx, w)"
| "run_steps p ctx (step # steps) current w =
     (case ctx_Err ctx of
        (Some ce, ctx1) \<Rightarrow>
          (Inl (apperrors_New CategoryPipeline (Name step) ce),
           p\<lparr>errorCount := errorCount p + 1\<rparr>, ctx1, w)
      | (None, ctx1) \<Rightarrow>
          (let w1 = notifyBefore p (Name step) current w
           in (case runWithRetry (cfg p) ctx1 step current w1 of
                 ((next, stepErr), attempts, ctx2, w2) \<Rightarrow>
                   (let w3 = notifyAfter p (Name step) next stepErr w2
                    in (case stepErr of
                          Some e \<Rightarrow> (Inl e, p\<lparr>errorCount := errorCount p + 1\<rparr>, ctx2, w3)
                        | None \<Rightarrow> run_steps p ctx2 steps next w3)))))"

text \<open>Part 1 of \<^verbatim>\<open>Process\<close>: the source is drained, through a \<^verbatim>\<open>LimitedReader\<close> when
  \<^verbatim>\<open>MaxImageBytes\<close> is positive.\<close>

definition drain_source ::
  "Config \<Rightarrow> Context \<Rightarrow> 'r Source \<Rightarrow> ((error + byte list) \<times> Context) option" where
  "drain_source c ctx src =
     (if 0 < MaxImageBytes c
      then map_option (\<lambda>(res, ctx', l). (res, ctx'))
             (DrainReader ctx (LimitedReader_Read (Reader_Read src))
                \<lparr>lr_R = Reader src, lr_Max = MaxImageBytes c, lr_n = 0\<rparr> (ChunkSize c))
      else map_option (\<lambda>(res, ctx', r). (res, ctx'))
             (DrainReader ctx (Reader_Read src) (Reader src) (ChunkSize c)))"

text \<open>
  \<^verbatim>\<open>Process\<close>. The result is \<open>None\<close> when draining does not return; otherwise the
  returned pair, the processor (its counters) afterwards, what is left of the context's
  observations, and the world.
\<close>

definition Process ::
  "(byte list \<Rightarrow> string) \<Rightarrow> ('j, 'w) Processor \<Rightarrow> Context \<Rightarrow> 'r Source \<Rightarrow> 'w Step list \<Rightarrow> 'w \<Rightarrow>
   ((ProcessingResult option \<times> error option) \<times> ('j, 'w) Processor \<times> Context \<times> 'w) option"
where
  "Process sniff p ctx src steps w =
     (if length steps = 0
      then Some ((None, Some (apperrors_New CategoryPipeline ''process'' ErrEmptyInput)), p, ctx, w)
      else
        (case drain_source (cfg p) ctx src of
           None \<Rightarrow> None
         | Some (Inl err, ctx1) \<Rightarrow>
             Some ((None, apperrors_Wrap CategoryDecode ''process.drain'' (Some err)), p, ctx1, w)
         | Some (Inr buf, ctx1) \<Rightarrow>
             (let rawBytes = CloneBytes buf;
                  format = (if ContentType src \<noteq> [] then contentTypeToFormat (ContentType src)
                            else DetectFormat sniff rawBytes);
                  img = \<lparr>Data = rawBytes, Format = format, Image = None, Meta = zero_Metadata,
                         OriginalSize = int (length rawBytes)\<rparr>
              in (case run_steps p ctx1 steps (Some img) w of
                    (Inl e, p', ctx2, w') \<Rightarrow> Some ((None, Some e), p', ctx2, w')
                  | (Inr current, p', ctx2, w') \<Rightarrow>
                      Some ((Some \<lparr>Primary = current\<rparr>, None),
                            p'\<lparr>processedCount := processedCount p' + 1\<rparr>, ctx2, w')))))"

definition ProcessedCount :: "('j, 'w) Processor \<Rightarrow> 64 word" where
  "ProcessedCount p = processedCount p"

definition ErrorCount :: "('j, 'w) Processor \<Rightarrow> 64 word" where
  "ErrorCount p = errorCount p"

definition bytes_Source :: "byte list \<Rightarrow> bytes_Reader Source" where
  "bytes_Source b = \<lparr>Reader = bytes_NewReader b, Reader_Read = bytes_Read, ContentType = [],
     SourceName = [], Size = -1\<rparr>"

definition example_proc :: "(nat, nat) Processor" where
  "example_proc = New example_cfg"

lemma take_then_rest: "take k xs @ drop (length (take k xs)) xs = xs"
  by (simp add: min_def)

lemma chunk_then_rest: "take k (drop i s) @ drop (i + length (take k (drop i s))) s = drop i s"
proof -
  have "drop (i + length (take k (drop i s))) s = drop (length (take k (drop i s))) (drop i s)"
    by (simp only: drop_drop add.commute)
  then show ?thesis by (simp only: take_then_rest)
qed

lemma LimitedReader_bytes_step:
  assumes "0 < k" "int i < M" "i < length s"
  shows "\<exists>d. LimitedReader_Read bytes_Read \<lparr>lr_R = BytesReader s i, lr_Max = M, lr_n = int i\<rparr> k
     = ((d, None), \<lparr>lr_R = BytesReader s (i + length d), lr_Max = M, lr_n = int (i + length d)\<rparr>)
     \<and> 0 < length d \<and> i + length d \<le> length s \<and> int (i + length d) \<le> M
     \<and> d @ drop (i + length d) s = drop i s"
proof -
  define k' where "k' = (if M - int i < int k then nat (M - int i) else k)"
  define d where "d = take k' (drop i s)"
  from assms have k': "0 < k'" "int k' \<le> M - int i" by (auto simp: k'_def)
  have ld: "length d = min k' (length s - i)" by (simp add: d_def)
  have app: "d @ drop (i + length d) s = drop i s"
    unfolding d_def by (rule chunk_then_rest)
  from assms have "LimitedReader_Read bytes_Read \<lparr>lr_R = BytesReader s i, lr_Max = M, lr_n = int i\<rparr> k
     = ((d, None), \<lparr>lr_R = BytesReader s (i + length d), lr_Max = M, lr_n = int (i + length d)\<rparr>)"
    by (simp add: LimitedReader_Read_def Let_def k'_def d_def)
  moreover from k' assms ld have "0 < length d" "i + length d \<le> length s" "int (i + length d) \<le> M"
    by auto
  ultimately show ?thesis using app by blast
qed

lemma drain_loop_limited_bytes:
  assumes "0 < k" "0 < M"
  shows "i \<le> length s \<Longrightarrow> int i \<le> M \<Longrightarrow>
    drain_loop (LimitedReader_Read bytes_Read) k []
      \<lparr>lr_R = BytesReader s i, lr_Max = M, lr_n = int i\<rparr> buf
    = Some (if int (length s) < M then Inr (buf @ drop i s) else Inl io_ErrUnexpectedEOF, [],
        \<lparr>lr_R = BytesReader s (min (length s) (nat M)), lr_Max = M,
          lr_n = int (min (length s) (nat M))\<rparr>)"
proof (induction "length s - i" arbitrary: i buf rule: less_induct)
  case less
  show ?case
  proof (cases "int i < M")
    case False
    with less.prems have iM: "int i = M" by simp
    with less.prems have m: "min (length s) (nat M) = i" "\<not> int (length s) < M" by auto
    from iM assms have "LimitedReader_Read bytes_Read \<lparr>lr_R = BytesReader s i, lr_Max = M, lr_n = int i\<rparr> k
       = (([], Some io_ErrUnexpectedEOF), \<lparr>lr_R = BytesReader s i, lr_Max = M, lr_n = int i\<rparr>)"
      by (simp add: LimitedReader_Read_def)
    then show ?thesis using m
      by (subst drain_loop.simps) (simp add: io_EOF_def io_ErrUnexpectedEOF_def)
  next
    case lt: True
    show ?thesis
    proof (cases "i < length s")
      case False
      with less.prems have il: "i = length s" by simp
      with lt have m: "min (length s) (nat M) = i" "int (length s) < M" by auto
      from il lt assms have "LimitedReader_Read bytes_Read \<lparr>lr_R = BytesReader s i, lr_Max = M, lr_n = int i\<rparr> k
         = (([], Some io_EOF), \<lparr>lr_R = BytesReader s i, lr_Max = M, lr_n = int i\<rparr>)"
        by (simp add: LimitedReader_Read_def Let_def)
      then show ?thesis using m il
        by (subst drain_loop.simps) simp
    next
      case True
      from LimitedReader_bytes_step [OF assms(1) lt True]
      obtain d where d: "LimitedReader_Read bytes_Read \<lparr>lr_R = BytesReader s i, lr_Max = M, lr_n = int i\<rparr> k
         = ((d, None), \<lparr>lr_R = BytesReader s (i + length d), lr_Max = M, lr_n = int (i + length d)\<rparr>)"
        "0 < length d" "i + length d \<le> length s" "int (i + length d) \<le> M"
        "d @ drop (i + length d) s = drop i s"
        by blast
      from d(2) True have dec: "length s - (i + length d) < length s - i" by linarith
      have "drain_loop (LimitedReader_Read bytes_Read) k []
          \<lparr>lr_R = BytesReader s i, lr_Max = M, lr_n = int i\<rparr> buf
        = drain_loop (LimitedReader_Read bytes_Read) k []
          \<lparr>lr_R = BytesReader s (i + length d), lr_Max = M, lr_n = int (i + length d)\<rparr> (buf @ d)"
        using d(1,2) by (subst drain_loop.simps) simp
      also have "\<dots> = Some (if int (length s) < M then Inr ((buf @ d) @ drop (i + length d) s)
                             else Inl io_ErrUnexpectedEOF, [],
        \<lparr>lr_R = BytesReader s (min (length s) (nat M)), lr_Max = M,
          lr_n = int (min (length s) (nat M))\<rparr>)"
        by (rule less.hyps [OF dec d(3) d(4)])
      finally show ?thesis using d(5) by simp
    qed
  qed
qed

lemma drain_loop_bytes:
  assumes "0 < k"
  shows "i \<le> length s \<Longrightarrow>
    drain_loop bytes_Read k [] (BytesReader s i) buf
    = Some (Inr (buf @ drop i s), [], BytesReader s (length s))"
proof (induction "length s - i" arbitrary: i buf rule: less_induct)
  case less
  show ?case
  proof (cases "i < length s")
    case False
    with less.prems have "i = length s" by simp
    then show ?thesis by (subst drain_loop.simps) simp
  next
    case True
    define d where "d = take k (drop i s)"
    from True assms have ld: "0 < length d" "i + length d \<le> length s" by (auto simp: d_def)
    have app: "d @ drop (i + length d) s = drop i s"
      unfolding d_def by (rule chunk_then_rest)
    from ld True have dec: "length s - (i + length d) < length s - i" by linarith
    have "drain_loop bytes_Read k [] (BytesReader s i) buf
        = drain_loop bytes_Read k [] (BytesReader s (i + length d)) (buf @ d)"
      using True ld(1) by (subst drain_loop.simps) (simp add: d_def Let_def io_EOF_def)
    also have "\<dots> = Some (Inr ((buf @ d) @ drop (i + length d) s), [], BytesReader s (length s))"
      by (rule less.hyps [OF dec ld(2)])
    finally show ?thesis using app by simp
  qed
qed

text \<open>
  What ingestion does on a \<^verbatim>\<open>bytes.Reader\<close> under a live context: without a ceiling all
  bytes are returned; with a ceiling \<open>M > 0\<close> they are returned only when there are fewer
  than \<open>M\<close> of them, and a source of exactly \<open>M\<close> bytes fails like a longer one.
\<close>

lemma drain_source_bytes:
  "drain_source c [] (bytes_Source b)
   = Some (if 0 < MaxImageBytes c \<and> MaxImageBytes c \<le> int (length b)
           then Inl io_ErrUnexpectedEOF else Inr b, [])"
proof (cases "0 < MaxImageBytes c")
  case True
  have k: "0 < nat (if ChunkSize c \<le> 0 then 32 * 1024 else ChunkSize c)" by simp
  from drain_loop_limited_bytes [OF k True, of 0 b "[]"] True
  show ?thesis
    by (simp add: drain_source_def DrainReader_def bytes_Source_def bytes_NewReader_def)
next
  case False
  have k: "0 < nat (if ChunkSize c \<le> 0 then 32 * 1024 else ChunkSize c)" by simp
  from drain_loop_bytes [OF k, of 0 b "[]"] False
  show ?thesis
    by (simp add: drain_source_def DrainReader_def bytes_Source_def bytes_NewReader_def)
qed

lemma run_steps_counters:
  "run_steps p ctx steps current w = (r, p', ctx', w') \<Longrightarrow>
   processedCount p' = processedCount p \<and>
   errorCount p' = (case r of Inl e \<Rightarrow> errorCount p + 1 | Inr cur \<Rightarrow> errorCount p)"
proof (induction steps arbitrary: ctx current w)
  case Nil
  then show ?case by auto
next
  case (Cons step steps)
  obtain ob ctx1 where ob: "ctx_Err ctx = (ob, ctx1)" by (metis prod.exhaust)
  show ?case
  proof (cases ob)
    case (Some ce)
    with ob Cons.prems show ?thesis by auto
  next
    case None
    obtain nxt stepErr attempts ctx2 w2 where rr:
      "runWithRetry (cfg p) ctx1 step current (notifyBefore p (Name step) current w)
         = ((nxt, stepErr), attempts, ctx2, w2)"
      by (metis prod.exhaust)
    show ?thesis
    proof (cases stepErr)
      case (Some e)
      with ob None rr Cons.prems show ?thesis by auto
    next
      case ok: None
      with ob None rr Cons.prems
      have "run_steps p ctx2 steps nxt (notifyAfter p (Name step) nxt None w2) = (r, p', ctx', w')"
        by simp
      then show ?thesis by (rule Cons.IH)
    qed
  qed
qed

text \<open>
  The counters over one call of \<^verbatim>\<open>Process\<close> that returns: a success adds one to
  \<open>processedCount\<close> only; an error comes with no result and adds one to \<open>errorCount\<close>
  when it arises in the loop over the steps, and leaves both counters as they were when
  the step list is empty or draining the source failed.
\<close>

lemma Process_counters:
  assumes "Process sniff p ctx src steps w = Some ((res, err), p', ctx', w')"
  shows "(err = None \<longrightarrow> res \<noteq> None \<and> processedCount p' = processedCount p + 1
            \<and> errorCount p' = errorCount p)
       \<and> (err \<noteq> None \<longrightarrow> res = None \<and> processedCount p' = processedCount p
            \<and> errorCount p' =
                (if steps = [] \<or> (\<exists>e ctx1. drain_source (cfg p) ctx src = Some (Inl e, ctx1))
                 then errorCount p else errorCount p + 1))"
proof (cases "steps = []")
  case True
  with assms show ?thesis by (auto simp: Process_def)
next
  case ne: False
  with assms obtain dr ctx1 where dr: "drain_source (cfg p) ctx src = Some (dr, ctx1)"
    by (auto simp: Process_def split: option.splits)
  show ?thesis
  proof (cases dr)
    case (Inl e)
    with assms ne dr show ?thesis by (auto simp: Process_def apperrors_Wrap_def)
  next
    case (Inr buf)
    define img where "img = \<lparr>Data = CloneBytes buf,
        Format = (if ContentType src \<noteq> [] then contentTypeToFormat (ContentType src)
                  else DetectFormat sniff (CloneBytes buf)),
        Image = None, Meta = zero_Metadata, OriginalSize = int (length (CloneBytes buf))\<rparr>"
    obtain r p1 ctx2 w2 where rs: "run_steps p ctx1 steps (Some img) w = (r, p1, ctx2, w2)"
      by (metis prod.exhaust)
    from run_steps_counters [OF rs]
    have c: "processedCount p1 = processedCount p"
      "errorCount p1 = (case r of Inl e \<Rightarrow> errorCount p + 1 | Inr cur \<Rightarrow> errorCount p)"
      by simp_all
    show ?thesis
    proof (cases r)
      case (Inl e)
      with assms ne dr Inr rs have "res = None" "err = Some e" "p' = p1"
        by (auto simp: Process_def Let_def img_def)
      with c Inl ne dr Inr show ?thesis by simp
    next
      case ok: (Inr cur)
      with assms ne dr Inr rs have "res \<noteq> None" "err = None"
        "p' = p1\<lparr>processedCount := processedCount p1 + 1\<rparr>"
        by (auto simp: Process_def Let_def img_def)
      with c ok show ?thesis by simp
    qed
  qed
qed

text \<open>
  C6 at a source of exactly the ceiling, \<open>4\<close> bytes under \<open>MaxImageBytes = 4\<close>: the
  limited reader hands out the four bytes with a nil error, refuses the next read with
  \<^verbatim>\<open>io.ErrUnexpectedEOF\<close> before it can see the end of the source, and \<^verbatim>\<open>Process\<close> fails
  with the wrapped error and no result.
\<close>

theorem ingest_at_ceiling_fails:
  "int (length [1, 2, 3, 4 :: byte]) \<le> MaxImageBytes example_cfg
   \<and> DrainReader [] (LimitedReader_Read bytes_Read)
        \<lparr>lr_R = bytes_NewReader [1, 2, 3, 4], lr_Max = 4, lr_n = 0\<rparr> (ChunkSize example_cfg)
      = Some (Inl io_ErrUnexpectedEOF, [],
              \<lparr>lr_R = BytesReader [1, 2, 3, 4] 4, lr_Max = 4, lr_n = 4\<rparr>)
   \<and> Process (\<lambda>d. []) example_proc [] (bytes_Source [1, 2, 3, 4]) [passing] 0
      = Some ((None, Some (ProcessingError CategoryDecode ''process.drain'' io_ErrUnexpectedEOF False)),
              example_proc, [], 0)"
  by (simp add: Process_def drain_source_def DrainReader_def drain_loop.simps
      LimitedReader_Read_def bytes_Source_def bytes_NewReader_def example_proc_def New_def
      example_cfg_def io_EOF_def io_ErrUnexpectedEOF_def apperrors_Wrap_def apperrors_New_def)

text \<open>
  C8 at two failing calls: a source above the ceiling (\<open>5\<close> bytes under
  \<open>MaxImageBytes = 4\<close>) and an empty step list. Both return an error and no result, and
  the processor, with its error counter, is what it was before the call.
\<close>

theorem Process_early_errors_not_counted:
  "Process (\<lambda>d. []) example_proc [] (bytes_Source [1, 2, 3, 4, 5]) [passing] 0
     = Some ((None, Some (ProcessingError CategoryDecode ''process.drain'' io_ErrUnexpectedEOF False)),
             example_proc, [], 0)
   \<and> Process (\<lambda>d. []) example_proc [] (bytes_Source [1, 2, 3]) [] 0
     = Some ((None, Some (ProcessingError CategoryPipeline ''process'' ErrEmptyInput False)),
             example_proc, [], 0)
   \<and> ErrorCount example_proc = 0"
  by (simp add: Process_def drain_source_def DrainReader_def drain_loop.simps
      LimitedReader_Read_def bytes_Source_def bytes_NewReader_def example_proc_def New_def
      example_cfg_def io_EOF_def io_ErrUnexpectedEOF_def apperrors_Wrap_def apperrors_New_def
      ErrorCount_def)

section \<open>Batch: fan-out and fan-in (core/processor.go)\<close>



























section \<open>Built-in steps (pipeline/steps.go)\<close>

text \<open>
  Every built-in step starts from \<^verbatim>\<open>out := *img\<close>, a copy of the struct, changes fields of
  the copy and returns \<^verbatim>\<open>&out\<close>; the struct behind \<^verbatim>\<open>img\<close> is never assigned to. So the
  input is a value here. What the copy shares with the input is what its reference
  fields point to: of these only the EXIF map is written by a step, through the store.
  A built-in step takes the store and returns it.
\<close>

subsection \<open>\<^verbatim>\<open>fmt.Sprintf("%d", q)\<close> and \<^verbatim>\<open>fmt.Sscanf(qs, "%d", &q)\<close>\<close>

definition digit_char :: "nat \<Rightarrow> char" where
  "digit_char d = ''0123456789'' ! d"

function digits :: "nat \<Rightarrow> string" where
  "digits n = (if n < 10 then [digit_char n] else digits (n div 10) @ [digit_char (n mod 10)])"
  by pat_completeness auto
termination
  by (relation "measure (\<lambda>n. n)") auto

declare digits.simps [simp del]

definition Sprintf_d :: "int \<Rightarrow> string" where
  "Sprintf_d q = (if q < 0 then CHR ''-'' # digits (nat (- q)) else digits (nat q))"

definition is_digit :: "char \<Rightarrow> bool" where
  "is_digit c \<longleftrightarrow> c \<in> set ''0123456789''"

definition digit_val :: "char \<Rightarrow> nat" where
  "digit_val c = length (takeWhile (\<lambda>x. x \<noteq> c) ''0123456789'')"

definition parse_decimal :: "string \<Rightarrow> nat" where
  "parse_decimal tok = foldl (\<lambda>a c. 10 * a + digit_val c) 0 tok"

definition is_space :: "char \<Rightarrow> bool" where
  "is_space c \<longleftrightarrow> c = CHR '' '' \<or> c = CHR 0x09 \<or> c = CHR 0x0D"

text \<open>
  The value of \<^verbatim>\<open>q\<close> after \<^verbatim>\<open>var q int; fmt.Sscanf(qs, "%d", &q)\<close> on an ASCII string: blanks
  are skipped, a sign is accepted, then the run of digits and underscores is the token,
  which \<^verbatim>\<open>strconv.ParseInt(tok, 10, 64)\<close> converts. When there is no token, when it holds an
  underscore or when the number does not fit 64 bits, the scan fails and \<^verbatim>\<open>q\<close> keeps its
  zero; the code does not look at the error.
\<close>

definition Sscanf_d :: "string \<Rightarrow> int" where
  "Sscanf_d qs =
     (let s1 = dropWhile is_space qs;
          neg = (s1 \<noteq> [] \<and> hd s1 = CHR ''-'');
          s2 = (if s1 \<noteq> [] \<and> (hd s1 = CHR ''-'' \<or> hd s1 = CHR ''+'') then tl s1 else s1);
          tok = takeWhile (\<lambda>c. is_digit c \<or> c = CHR ''_'') s2
      in if tok = [] \<or> CHR ''_'' \<in> set tok then 0
         else (let v = (if neg then - int (parse_decimal tok) else int (parse_decimal tok))
               in if - (2 ^ 63) \<le> v \<and> v < 2 ^ 63 then v else 0))"

subsection \<open>The steps\<close>

record EncodeOptions =
  Quality :: int
  Lossless :: bool
  StripEXIF :: bool
  Interlaced :: bool

text \<open>
  An \<^verbatim>\<open>Encoder\<close> is an interface of a collaborator: it acts on its world \<open>'w\<close> and returns
  the bytes or an error. The registry maps a format to its encoder.
\<close>

type_synonym 'w Encoder = "'w \<Rightarrow> ImageData \<Rightarrow> EncodeOptions \<Rightarrow> (error + byte list) \<times> 'w"
type_synonym 'w Registry = "Format \<rightharpoonup> 'w Encoder"

definition FormatStep_Execute ::
  "Format \<Rightarrow> MapStore \<Rightarrow> ImageData \<Rightarrow> (ImageData option \<times> error option) \<times> MapStore" where
  "FormatStep_Execute fmt h img =
     (let out = img\<lparr>Format := fmt, Meta := (Meta img)\<lparr>MetaFormat := fmt\<rparr>\<rparr>
      in ((Some out, None), h))"

text \<open>
  \<^verbatim>\<open>QualityStep\<close>: after \<^verbatim>\<open>out := *img\<close> the field \<^verbatim>\<open>out.Meta.EXIF\<close> is the map of the input.
  A nil map is replaced by a new one; then \<^verbatim>\<open>out.Meta.EXIF["_quality"] = ...\<close> writes into
  the map the field refers to.
\<close>

definition QualityStep_Execute ::
  "int \<Rightarrow> MapStore \<Rightarrow> ImageData \<Rightarrow> (ImageData option \<times> error option) \<times> MapStore" where
  "QualityStep_Execute quality h img =
     (case EXIF (Meta img) of
        None \<Rightarrow>
          (case make_map h of
             (a, h1) \<Rightarrow>
               ((Some (img\<lparr>Meta := (Meta img)\<lparr>EXIF := Some a\<rparr>\<rparr>), None),
                map_store h1 a ''_quality'' (Sprintf_d quality)))
      | Some a \<Rightarrow> ((Some img, None), map_store h a ''_quality'' (Sprintf_d quality)))"

definition StripEXIFStep_Execute ::
  "MapStore \<Rightarrow> ImageData \<Rightarrow> (ImageData option \<times> error option) \<times> MapStore" where
  "StripEXIFStep_Execute h img =
     (let out = img\<lparr>Meta := (Meta img)\<lparr>EXIF := None, HasEXIF := False, Orientation := 0\<rparr>\<rparr>
      in ((Some out, None), h))"

text \<open>
  \<^verbatim>\<open>EncodeStep\<close>. \<open>EncodeStep_opts\<close> is the block that builds \<^verbatim>\<open>opts\<close>: the base options,
  with the quality replaced by what is scanned from the \<^verbatim>\<open>"_quality"\<close> entry when the map
  is not nil and has the entry.
\<close>

definition EncodeStep_opts :: "EncodeOptions \<Rightarrow> MapStore \<Rightarrow> ImageData \<Rightarrow> EncodeOptions" where
  "EncodeStep_opts BaseOptions h img =
     (case EXIF (Meta img) of
        None \<Rightarrow> BaseOptions
      | Some a \<Rightarrow>
          (case map_load h a ''_quality'' of
             None \<Rightarrow> BaseOptions
           | Some qs \<Rightarrow> BaseOptions\<lparr>Quality := Sscanf_d qs\<rparr>))"

definition EncodeStep_Execute ::
  "'w Registry \<Rightarrow> EncodeOptions \<Rightarrow> MapStore \<times> 'w \<Rightarrow> ImageData \<Rightarrow>
   (ImageData option \<times> error option) \<times> MapStore \<times> 'w" where
  "EncodeStep_Execute registry BaseOptions hw img =
     (case hw of (h, w) \<Rightarrow>
        (case registry (Format img) of
           None \<Rightarrow>
             ((None, Some (apperrors_New CategoryEncode ''encode''
                 (Errorf (''unsupported image format: '' @ Format img) ErrUnsupportedFormat))),
              h, w)
         | Some enc \<Rightarrow>
             (case enc w img (EncodeStep_opts BaseOptions h img) of
                (Inl err, w') \<Rightarrow> ((None, Some err), h, w')
              | (Inr data, w') \<Rightarrow>
                  ((Some (img\<lparr>Data := data,
                              Meta := (Meta img)\<lparr>SizeBytes := int (length data)\<rparr>\<rparr>), None),
                   h, w'))))"

definition example_store :: MapStore where
  "example_store = [[''Make'' \<mapsto> ''Canon'']]"

definition example_img :: ImageData where
  "example_img = \<lparr>Data = [0xFF, 0xD8, 0xFF, 0xE0], Format = ''jpeg'', Image = None,
     Meta = zero_Metadata\<lparr>EXIF := Some 0, HasEXIF := True\<rparr>, OriginalSize = 4\<rparr>"

text \<open>An encoder for concrete runs: the output has as many bytes as the quality asked for.\<close>

definition size_encoder :: "nat Encoder" where
  "size_encoder w img opts = (Inr (replicate (nat (Quality opts)) 0), Suc w)"

definition example_opts :: EncodeOptions where
  "example_opts = \<lparr>Quality = 85, Lossless = False, StripEXIF = False, Interlaced = False\<rparr>"

subsection \<open>Properties\<close>

lemma digit_char_props:
  assumes "d < 10"
  shows "digit_val (digit_char d) = d" "is_digit (digit_char d)" "digit_char d \<noteq> CHR ''_''"
    "\<not> is_space (digit_char d)" "digit_char d \<noteq> CHR ''-''" "digit_char d \<noteq> CHR ''+''"
proof -
  from assms have "d \<in> {0, 1, 2, 3, 4, 5, 6, 7, 8, 9}" by auto
  then show "digit_val (digit_char d) = d" "is_digit (digit_char d)" "digit_char d \<noteq> CHR ''_''"
    "\<not> is_space (digit_char d)" "digit_char d \<noteq> CHR ''-''" "digit_char d \<noteq> CHR ''+''"
    by (auto simp: digit_char_def digit_val_def is_digit_def is_space_def)
qed

lemma parse_decimal_snoc: "parse_decimal (tok @ [c]) = 10 * parse_decimal tok + digit_val c"
  by (simp add: parse_decimal_def)

lemma digits_props:
  "digits n \<noteq> [] \<and> parse_decimal (digits n) = n \<and>
   (\<forall>c \<in> set (digits n). is_digit c \<and> c \<noteq> CHR ''_'') \<and>
   \<not> is_space (hd (digits n)) \<and> hd (digits n) \<noteq> CHR ''-'' \<and> hd (digits n) \<noteq> CHR ''+''"
proof (induction n rule: digits.induct)
  case (1 n)
  show ?case
  proof (cases "n < 10")
    case True
    then have "digits n = [digit_char n]" by (subst digits.simps) simp
    with digit_char_props [OF True] show ?thesis by (simp add: parse_decimal_def)
  next
    case False
    then have d: "digits n = digits (n div 10) @ [digit_char (n mod 10)]"
      by (subst digits.simps) simp
    have m: "n mod 10 < 10" by simp
    from "1.IH" [OF False] digit_char_props [OF m] show ?thesis
      by (simp add: d parse_decimal_snoc)
  qed
qed

lemma Sscanf_d_token:
  assumes ne: "ds \<noteq> []" and all: "\<forall>c \<in> set ds. is_digit c \<and> c \<noteq> CHR ''_''"
    and hd: "\<not> is_space (hd ds)" "hd ds \<noteq> CHR ''-''" "hd ds \<noteq> CHR ''+''"
  shows "Sscanf_d ds = (if int (parse_decimal ds) < 2 ^ 63 then int (parse_decimal ds) else 0)"
    and "Sscanf_d (CHR ''-'' # ds)
         = (if int (parse_decimal ds) \<le> 2 ^ 63 then - int (parse_decimal ds) else 0)"
proof -
  from all have tw: "takeWhile (\<lambda>c. is_digit c \<or> c = CHR ''_'') ds = ds"
    by (simp add: takeWhile_eq_all_conv)
  from all have nu: "CHR ''_'' \<notin> set ds" by auto
  from ne hd(1) have dw: "dropWhile is_space ds = ds" by (cases ds) simp_all
  have dm: "dropWhile is_space (CHR ''-'' # ds) = CHR ''-'' # ds" by (simp add: is_space_def)
  show "Sscanf_d ds = (if int (parse_decimal ds) < 2 ^ 63 then int (parse_decimal ds) else 0)"
    unfolding Sscanf_d_def Let_def dw using ne nu hd by (simp add: tw)
  show "Sscanf_d (CHR ''-'' # ds)
         = (if int (parse_decimal ds) \<le> 2 ^ 63 then - int (parse_decimal ds) else 0)"
    unfolding Sscanf_d_def Let_def dm using ne nu by (simp add: tw)
qed

lemma Sscanf_Sprintf:
  assumes "- (2 ^ 63) \<le> q" "q < 2 ^ 63"
  shows "Sscanf_d (Sprintf_d q) = q"
proof -
  define n where "n = nat \<bar>q\<bar>"
  from digits_props [of n] have p: "digits n \<noteq> []" "parse_decimal (digits n) = n"
    "\<forall>c \<in> set (digits n). is_digit c \<and> c \<noteq> CHR ''_''"
    "\<not> is_space (hd (digits n))" "hd (digits n) \<noteq> CHR ''-''" "hd (digits n) \<noteq> CHR ''+''"
    by simp_all
  note tok = Sscanf_d_token [OF p(1) p(3) p(4) p(5) p(6)]
  show ?thesis
  proof (cases "q < 0")
    case True
    then have "Sprintf_d q = CHR ''-'' # digits n" by (simp add: Sprintf_d_def n_def)
    then have "Sscanf_d (Sprintf_d q) = (if int n \<le> 2 ^ 63 then - int n else 0)"
      using tok(2) p(2) by simp
    with True assms show ?thesis by (simp add: n_def)
  next
    case False
    then have "Sprintf_d q = digits n" by (simp add: Sprintf_d_def n_def)
    then have "Sscanf_d (Sprintf_d q) = (if int n < 2 ^ 63 then int n else 0)"
      using tok(1) p(2) by simp
    with False assms show ?thesis by (simp add: n_def)
  qed
qed

lemma QualityStep_tag:
  assumes "\<forall>a. EXIF (Meta img) = Some a \<longrightarrow> a < length h"
  shows "\<exists>out h' a. QualityStep_Execute q h img = ((Some out, None), h') \<and>
     EXIF (Meta out) = Some a \<and> map_load h' a ''_quality'' = Some (Sprintf_d q)"
proof (cases "EXIF (Meta img)")
  case None
  then show ?thesis
    by (simp add: QualityStep_Execute_def make_map_def map_store_def map_load_def)
next
  case (Some a)
  with assms have "a < length h" by simp
  with Some show ?thesis
    by (simp add: QualityStep_Execute_def map_store_def map_load_def)
qed

text \<open>
  C10. \<^verbatim>\<open>EncodeStep\<close> calls the encoder of the image's format with options built from
  \<^verbatim>\<open>BaseOptions\<close>: when the EXIF map of the state has the key \<^verbatim>\<open>"_quality"\<close>, as it has after
  a \<^verbatim>\<open>QualityStep\<close> with quality \<open>q\<close>, the quality of the options is \<open>q\<close> and the other
  options are the base ones; when the map is nil or lacks the key, the options are
  \<^verbatim>\<open>BaseOptions\<close> unchanged.
\<close>

theorem EncodeStep_quality_side_channel:
  "(- (2 ^ 63) \<le> q \<and> q < 2 ^ 63 \<and> (\<forall>a. EXIF (Meta img) = Some a \<longrightarrow> a < length h)
      \<longrightarrow> (\<exists>out h'. QualityStep_Execute q h img = ((Some out, None), h') \<and>
             EncodeStep_opts BaseOptions h' out = BaseOptions\<lparr>Quality := q\<rparr>))
   \<and> (EXIF (Meta img) = None \<longrightarrow> EncodeStep_opts BaseOptions h img = BaseOptions)
   \<and> (EXIF (Meta img) = Some a \<and> map_load h a ''_quality'' = None
      \<longrightarrow> EncodeStep_opts BaseOptions h img = BaseOptions)
   \<and> (registry (Format img) = Some enc
      \<longrightarrow> EncodeStep_Execute registry BaseOptions (h, w) img =
          (case enc w img (EncodeStep_opts BaseOptions h img) of
             (Inl err, w') \<Rightarrow> ((None, Some err), h, w')
           | (Inr data, w') \<Rightarrow>
               ((Some (img\<lparr>Data := data, Meta := (Meta img)\<lparr>SizeBytes := int (length data)\<rparr>\<rparr>),
                 None), h, w')))"
proof (intro conjI impI)
  assume a: "- (2 ^ 63) \<le> q \<and> q < 2 ^ 63 \<and> (\<forall>a. EXIF (Meta img) = Some a \<longrightarrow> a < length h)"
  then obtain out h' b where ex: "QualityStep_Execute q h img = ((Some out, None), h')"
    "EXIF (Meta out) = Some b" "map_load h' b ''_quality'' = Some (Sprintf_d q)"
    using QualityStep_tag [of img h q] by blast
  from a have "Sscanf_d (Sprintf_d q) = q" by (simp add: Sscanf_Sprintf)
  with ex have "EncodeStep_opts BaseOptions h' out = BaseOptions\<lparr>Quality := q\<rparr>"
    by (simp add: EncodeStep_opts_def)
  with ex(1) show "\<exists>out h'. QualityStep_Execute q h img = ((Some out, None), h') \<and>
             EncodeStep_opts BaseOptions h' out = BaseOptions\<lparr>Quality := q\<rparr>"
    by blast
next
  assume "EXIF (Meta img) = None"
  then show "EncodeStep_opts BaseOptions h img = BaseOptions"
    by (simp add: EncodeStep_opts_def)
next
  assume "EXIF (Meta img) = Some a \<and> map_load h a ''_quality'' = None"
  then show "EncodeStep_opts BaseOptions h img = BaseOptions"
    by (simp add: EncodeStep_opts_def)
next
  assume "registry (Format img) = Some enc"
  then show "EncodeStep_Execute registry BaseOptions (h, w) img =
          (case enc w img (EncodeStep_opts BaseOptions h img) of
             (Inl err, w') \<Rightarrow> ((None, Some err), h, w')
           | (Inr data, w') \<Rightarrow>
               ((Some (img\<lparr>Data := data, Meta := (Meta img)\<lparr>SizeBytes := int (length data)\<rparr>\<rparr>),
                 None), h, w'))"
    by (simp add: EncodeStep_Execute_def)
qed

theorem EncodeStep_quality_side_channel_witness:
  "(\<exists>out h'. QualityStep_Execute 80 example_store example_img = ((Some out, None), h') \<and>
       EncodeStep_opts example_opts h' out = example_opts\<lparr>Quality := 80\<rparr>)
   \<and> EncodeStep_opts example_opts [] (example_img\<lparr>Meta := zero_Metadata\<rparr>) = example_opts
   \<and> EncodeStep_opts example_opts example_store example_img = example_opts
   \<and> fst (EncodeStep_Execute [''jpeg'' \<mapsto> size_encoder] example_opts (example_store, 0) example_img)
       = (Some (example_img\<lparr>Data := replicate 85 0,
                 Meta := (Meta example_img)\<lparr>SizeBytes := 85\<rparr>\<rparr>), None)"
proof -
  have r: "- (2 ^ 63) \<le> (80 :: int) \<and> (80 :: int) < 2 ^ 63 \<and>
      (\<forall>a. EXIF (Meta example_img) = Some a \<longrightarrow> a < length example_store)"
    by (simp add: example_img_def example_store_def)
  have n: "EXIF (Meta (example_img\<lparr>Meta := zero_Metadata\<rparr>)) = None"
    by (simp add: zero_Metadata_def)
  have k: "EXIF (Meta example_img) = Some 0 \<and> map_load example_store 0 ''_quality'' = None"
    by (simp add: example_img_def example_store_def map_load_def)
  have g: "[''jpeg'' \<mapsto> size_encoder] (Format example_img) = Some size_encoder"
    by (simp add: example_img_def)
  have q85: "Quality example_opts = 85" by (simp add: example_opts_def)
  have c1: "\<exists>out h'. QualityStep_Execute 80 example_store example_img = ((Some out, None), h') \<and>
       EncodeStep_opts example_opts h' out = example_opts\<lparr>Quality := 80\<rparr>"
    by (rule EncodeStep_quality_side_channel [THEN conjunct1, THEN mp, OF r])
  have c2: "EncodeStep_opts example_opts [] (example_img\<lparr>Meta := zero_Metadata\<rparr>) = example_opts"
    by (rule EncodeStep_quality_side_channel [THEN conjunct2, THEN conjunct1, THEN mp, OF n])
  have c3: "EncodeStep_opts example_opts example_store example_img = example_opts"
    by (rule EncodeStep_quality_side_channel
        [THEN conjunct2, THEN conjunct2, THEN conjunct1, THEN mp, OF k])
  have "EncodeStep_Execute [''jpeg'' \<mapsto> size_encoder] example_opts (example_store, 0) example_img
      = (case size_encoder 0 example_img (EncodeStep_opts example_opts example_store example_img) of
           (Inl err, w') \<Rightarrow> ((None, Some err), example_store, w')
         | (Inr data, w') \<Rightarrow>
             ((Some (example_img\<lparr>Data := data,
                       Meta := (Meta example_img)\<lparr>SizeBytes := int (length data)\<rparr>\<rparr>), None),
              example_store, w'))"
    by (rule EncodeStep_quality_side_channel
        [where registry = "[''jpeg'' \<mapsto> size_encoder]" and img = example_img
           and enc = size_encoder,
         THEN conjunct2, THEN conjunct2, THEN conjunct2, THEN mp, OF g])
  then have c4: "fst (EncodeStep_Execute [''jpeg'' \<mapsto> size_encoder] example_opts (example_store, 0) example_img)
       = (Some (example_img\<lparr>Data := replicate 85 0,
                 Meta := (Meta example_img)\<lparr>SizeBytes := 85\<rparr>\<rparr>), None)"
    using q85 by (simp add: c3 size_encoder_def)
  from c1 c2 c3 c4 show ?thesis by (intro conjI)
qed

text \<open>
  C4 at \<^verbatim>\<open>QualityStep\<close> on an image that has an EXIF map: the map of the input, at the
  address the input still holds, has the new key afterwards. The step returns a copy of
  the struct, and the copy refers to the same map.
\<close>

theorem QualityStep_writes_input_EXIF:
  "EXIF (Meta example_img) = Some 0
   \<and> map_load example_store 0 ''_quality'' = None
   \<and> QualityStep_Execute 80 example_store example_img
       = ((Some example_img, None), [[''Make'' \<mapsto> ''Canon'', ''_quality'' \<mapsto> ''80'']])
   \<and> map_load (snd (QualityStep_Execute 80 example_store example_img)) 0 ''_quality''
       = Some ''80''"
  by (simp add: example_img_def example_store_def QualityStep_Execute_def map_store_def
      map_load_def Sprintf_d_def digits.simps digit_char_def)

text \<open>The other steps modelled here return the store they were given.\<close>

lemma other_steps_keep_store:
  "snd (FormatStep_Execute fmt h img) = h"
  "snd (StripEXIFStep_Execute h img) = h"
  "fst (snd (EncodeStep_Execute registry BaseOptions (h, w) img)) = h"
  by (simp_all add: FormatStep_Execute_def StripEXIFStep_Execute_def EncodeStep_Execute_def
      Let_def split: option.splits sum.splits prod.splits)

section \<open>Adaptive compression (AdaptiveCompressStep in pipeline/steps.go)\<close>

record 'w AdaptiveCompressStep =
  Registry :: "'w Registry"
  TargetSizeBytes :: int
  MinQuality :: int
  MaxQuality :: int
  StepSize :: int

















section \<open>Scaling of dimensions (ScaleDimensions in utils)\<close>

text \<open>
  \<^verbatim>\<open>ScaleDimensions\<close> computes in \<^verbatim>\<open>float64\<close>. A finite \<^verbatim>\<open>float64\<close> is a rational number, and
  each operation of IEEE 754 returns the exact result rounded to the nearest number with
  a significand of 53 bits, ties to the even significand. \<open>float64 x\<close> is that rounding
  of the exact \<open>x\<close>, for \<open>x\<close> in the range of the normal numbers (all values that
  arise from 64-bit integers by one division and one multiplication are).
  \<open>expo x\<close> is the exponent of \<open>x > 0\<close>, the \<open>e\<close> with \<open>2^e \<le> x < 2^(e+1)\<close>.
\<close>

definition expo :: "rat \<Rightarrow> int" where
  "expo x = (if 1 \<le> x then bitlen \<lfloor>x\<rfloor> - 1 else - bitlen (\<lceil>1 / x\<rceil> - 1))"

definition round_even :: "rat \<Rightarrow> int" where
  "round_even y =
     (let f = \<lfloor>y\<rfloor>; d = y - of_int f
      in if d < 1 / 2 then f else if 1 / 2 < d then f + 1 else if even f then f else f + 1)"

definition float64 :: "rat \<Rightarrow> rat" where
  "float64 x =
     (if x = 0 then 0
      else (let u = 2 powi (expo \<bar>x\<bar> - 52)
            in sgn x * of_int (round_even (\<bar>x\<bar> / u)) * u))"

text \<open>
  The conversion \<^verbatim>\<open>int(f)\<close> drops the fraction (towards zero). When the value does not fit
  the 64-bit \<^verbatim>\<open>int\<close>, Go leaves the result to the implementation: \<open>None\<close>.
\<close>

definition int_of_float64 :: "rat \<Rightarrow> int option" where
  "int_of_float64 f =
     (let t = (if 0 \<le> f then \<lfloor>f\<rfloor> else \<lceil>f\<rceil>)
      in if - (2 ^ 63) \<le> t \<and> t < 2 ^ 63 then Some t else None)"

text \<open>
  \<^verbatim>\<open>ScaleDimensions\<close>. A division by \<^verbatim>\<open>float64(0)\<close> gives an infinity or a NaN, whose
  conversion to \<^verbatim>\<open>int\<close> is left to the implementation as well.
\<close>

definition ScaleDimensions :: "int \<Rightarrow> int \<Rightarrow> int \<Rightarrow> int \<Rightarrow> (int \<times> int) option" where
  "ScaleDimensions srcW srcH targetW targetH =
     (if targetW = 0 \<and> targetH = 0 then Some (srcW, srcH)
      else if targetW = 0 then
        (if srcH = 0 then None
         else (let ratio = float64 (float64 (of_int targetH) / float64 (of_int srcH))
               in map_option (\<lambda>w. (w, targetH))
                    (int_of_float64 (float64 (float64 (of_int srcW) * ratio)))))
      else if targetH = 0 then
        (if srcW = 0 then None
         else (let ratio = float64 (float64 (of_int targetW) / float64 (of_int srcW))
               in map_option (\<lambda>h. (targetW, h))
                    (int_of_float64 (float64 (float64 (of_int srcH) * ratio)))))
      else Some (targetW, targetH))"

text \<open>
  The rounding of the two operations shows even where the exact quotient is an integer:
  \<open>15 \<times> 49 / 3 = 245\<close>, and the code returns 244.
\<close>

lemma ScaleDimensions_one_below: "ScaleDimensions 3 15 49 0 = Some (49, 244)"
  by code_simp

subsection \<open>Rounding error of \<open>float64\<close>\<close>

lemma expo_lower:
  assumes "0 < x"
  shows "2 powi (expo x) \<le> x"
proof (cases "1 \<le> x")
  case True
  then have f: "0 < \<lfloor>x\<rfloor>" by (simp add: less_floor_iff)
  from bitlen_bounds [OF f] have b: "2 ^ nat (bitlen \<lfloor>x\<rfloor> - 1) \<le> \<lfloor>x\<rfloor>" by simp
  from f have "1 \<le> bitlen \<lfloor>x\<rfloor>"
    using bitlen_eq_zero_iff [of "\<lfloor>x\<rfloor>"] bitlen_nonneg [of "\<lfloor>x\<rfloor>"] by linarith
  then have "(2::rat) powi (bitlen \<lfloor>x\<rfloor> - 1) = 2 ^ nat (bitlen \<lfloor>x\<rfloor> - 1)"
    by (simp add: power_int_nonneg_exp)
  also have "\<dots> = of_int (2 ^ nat (bitlen \<lfloor>x\<rfloor> - 1))" by simp
  also have "\<dots> \<le> of_int \<lfloor>x\<rfloor>" using b by (simp only: of_int_le_iff)
  also have "\<dots> \<le> x" by simp
  finally show ?thesis using True by (simp add: expo_def)
next
  case False
  define c where "c = \<lceil>1 / x\<rceil> - 1"
  define k where "k = bitlen c"
  from False assms have "1 < 1 / x" by (simp add: field_simps)
  then have c: "0 < c" by (simp add: c_def less_ceiling_iff)
  from bitlen_bounds [OF c] have "c < 2 ^ nat k" by (simp add: k_def)
  then have "\<lceil>1 / x\<rceil> \<le> 2 ^ nat k" by (simp add: c_def)
  then have "1 / x \<le> of_int (2 ^ nat k)" by (simp only: ceiling_le_iff)
  then have "1 / x \<le> 2 ^ nat k" by simp
  with assms have le: "1 / 2 ^ nat k \<le> x" by (simp add: field_simps)
  have "0 \<le> k" by (simp add: k_def bitlen_nonneg)
  then have "(2::rat) powi (- k) = 1 / 2 ^ nat k"
    by (simp add: power_int_minus_divide power_int_nonneg_exp)
  with le False show ?thesis by (simp add: expo_def c_def k_def)
qed

lemma expo_upper:
  assumes "0 < x"
  shows "x < 2 powi (expo x + 1)"
proof (cases "1 \<le> x")
  case True
  then have f: "0 < \<lfloor>x\<rfloor>" by (simp add: less_floor_iff)
  from bitlen_bounds [OF f] have "\<lfloor>x\<rfloor> < 2 ^ nat (bitlen \<lfloor>x\<rfloor>)" by simp
  then have "\<lfloor>x\<rfloor> + 1 \<le> 2 ^ nat (bitlen \<lfloor>x\<rfloor>)" by simp
  then have "of_int (\<lfloor>x\<rfloor> + 1) \<le> (of_int (2 ^ nat (bitlen \<lfloor>x\<rfloor>)) :: rat)"
    by (simp only: of_int_le_iff)
  moreover have "x < of_int (\<lfloor>x\<rfloor> + 1)" by linarith
  ultimately have "x < 2 ^ nat (bitlen \<lfloor>x\<rfloor>)" by simp
  moreover have "(2::rat) powi (bitlen \<lfloor>x\<rfloor>) = 2 ^ nat (bitlen \<lfloor>x\<rfloor>)"
    by (simp add: power_int_nonneg_exp bitlen_nonneg)
  ultimately show ?thesis using True by (simp add: expo_def)
next
  case False
  define c where "c = \<lceil>1 / x\<rceil> - 1"
  define k where "k = bitlen c"
  from False assms have "1 < 1 / x" by (simp add: field_simps)
  then have c: "0 < c" by (simp add: c_def less_ceiling_iff)
  then have k1: "1 \<le> k"
    using bitlen_eq_zero_iff [of c] bitlen_nonneg [of c] unfolding k_def by linarith
  from bitlen_bounds [OF c] have "2 ^ nat (k - 1) \<le> c" by (simp add: k_def)
  then have "2 ^ nat (k - 1) < \<lceil>1 / x\<rceil>" by (simp add: c_def)
  then have "of_int (2 ^ nat (k - 1)) < 1 / x" by (simp only: less_ceiling_iff)
  then have "2 ^ nat (k - 1) < 1 / x" by simp
  with assms have lt: "x < 1 / 2 ^ nat (k - 1)" by (simp add: field_simps)
  have "(2::rat) powi (- k + 1) = 2 powi (- (k - 1))" by simp
  also have "\<dots> = 1 / 2 ^ nat (k - 1)"
    using k1 by (simp only: power_int_minus_divide) (simp add: power_int_nonneg_exp)
  finally show ?thesis using lt False by (simp add: expo_def c_def k_def)
qed

lemma round_even_err: "\<bar>of_int (round_even y) - y\<bar> \<le> 1 / 2"
proof -
  have "of_int \<lfloor>y\<rfloor> \<le> y" "y < of_int \<lfloor>y\<rfloor> + 1" by linarith+
  then show ?thesis by (auto simp: round_even_def Let_def)
qed

lemma round_even_of_int: "round_even (of_int k) = k"
  by (simp add: round_even_def)

lemma round_even_nonneg: "0 \<le> y \<Longrightarrow> 0 \<le> round_even y"
  by (auto simp: round_even_def Let_def)

lemma float64_err:
  "\<bar>float64 x - x\<bar> \<le> \<bar>x\<bar> / 2 ^ 53"
proof (cases "x = 0")
  case True
  then show ?thesis by (simp add: float64_def)
next
  case False
  define u :: rat where "u = 2 powi (expo \<bar>x\<bar> - 52)"
  define r where "r = round_even (\<bar>x\<bar> / u)"
  have u: "0 < u" by (simp add: u_def)
  from False have ax: "0 < \<bar>x\<bar>" by simp
  have "u = 2 powi (expo \<bar>x\<bar>) / 2 ^ 52"
    by (simp add: u_def power_int_diff)
  also have "\<dots> \<le> \<bar>x\<bar> / 2 ^ 52"
    using expo_lower [OF ax] by (simp add: divide_right_mono)
  finally have ub: "u \<le> \<bar>x\<bar> / 2 ^ 52" .
  have fx: "float64 x = sgn x * of_int r * u"
    using False by (simp add: float64_def Let_def u_def r_def)
  have "float64 x - x = sgn x * (of_int r * u - \<bar>x\<bar>)"
    using False by (cases "0 < x") (simp_all add: fx sgn_if algebra_simps)
  also have "of_int r * u - \<bar>x\<bar> = (of_int r - \<bar>x\<bar> / u) * u"
    using u by (simp add: algebra_simps)
  finally have "\<bar>float64 x - x\<bar> = \<bar>of_int r - \<bar>x\<bar> / u\<bar> * u"
    using False u by (simp add: abs_mult abs_sgn_eq)
  also have "\<dots> \<le> 1 / 2 * u"
    using round_even_err [of "\<bar>x\<bar> / u"] u unfolding r_def
    by (intro mult_right_mono) simp_all
  also have "\<dots> \<le> 1 / 2 * (\<bar>x\<bar> / 2 ^ 52)"
    using ub by simp
  also have "\<dots> = \<bar>x\<bar> / 2 ^ 53" by simp
  finally show ?thesis .
qed

lemma float64_nonneg: "0 \<le> x \<Longrightarrow> 0 \<le> float64 x"
proof -
  assume x: "0 \<le> x"
  have "0 \<le> of_int (round_even (\<bar>x\<bar> / 2 powi (expo \<bar>x\<bar> - 52))) * ((2::rat) powi (expo \<bar>x\<bar> - 52))"
    by (intro mult_nonneg_nonneg) (simp_all add: round_even_nonneg)
  with x show ?thesis
    by (auto simp: float64_def Let_def sgn_if mult.assoc)
qed

lemma float64_pos:
  "0 < x \<Longrightarrow> float64 x = of_int (round_even (x / 2 powi (expo x - 52))) * 2 powi (expo x - 52)"
  by (simp add: float64_def Let_def)

lemma float64_of_int:
  assumes "0 < n" "n < 2 ^ 53"
  shows "float64 (of_int n) = of_int n"
proof -
  define g where "g = 52 - (bitlen n - 1)"
  from assms(2) have "bitlen n \<le> 53" by (simp add: bitlen_le_iff_power)
  then have g: "0 \<le> g" by (simp add: g_def)
  from assms(1) have x: "(0::rat) < of_int n" "(1::rat) \<le> of_int n" by simp_all
  from x(2) have e: "expo (of_int n) - 52 = - g" by (simp add: expo_def g_def)
  have u: "(2::rat) powi (- g) = 1 / 2 ^ nat g"
    using g by (simp add: power_int_minus_divide power_int_nonneg_exp)
  have q: "(of_int n :: rat) / (1 / 2 ^ nat g) = of_int (n * 2 ^ nat g)" by simp
  have "float64 (of_int n) = of_int (n * 2 ^ nat g) * (1 / 2 ^ nat g)"
    by (simp only: float64_pos [OF x(1)] e u q round_even_of_int)
  then show ?thesis by simp
qed

lemma scaled_axis:
  fixes a b c :: int
  assumes a: "0 < a" and b: "0 < b" "b < 2 ^ 53" and c: "0 < c" and ca: "c * a \<le> 2 ^ 51"
  shows "0 \<le> float64 (float64 (of_int c) * float64 (float64 (of_int a) / float64 (of_int b)))"
    and "of_int ((c * a) div b) - 1
          < float64 (float64 (of_int c) * float64 (float64 (of_int a) / float64 (of_int b)))"
    and "float64 (float64 (of_int c) * float64 (float64 (of_int a) / float64 (of_int b)))
          < of_int ((c * a) div b) + 1"
proof -
  define fprod where
    "fprod = float64 (float64 (of_int c) * float64 (float64 (of_int a) / float64 (of_int b)))"
  define A B C :: rat where "A = of_int a" and "B = of_int b" and "C = of_int c"
  have pos: "0 < A" "1 \<le> B" "0 < C" "0 < B" using a b c by (simp_all add: A_def B_def C_def)
  have "a * 1 \<le> a * c" using a c by (intro mult_left_mono) simp_all
  with ca have a53: "a < 2 ^ 53" by (simp add: mult.commute)
  have "c * 1 \<le> c * a" using a c by (intro mult_left_mono) simp_all
  with ca have c53: "c < 2 ^ 53" by simp
  have fa: "float64 (of_int a) = A" "float64 (of_int b) = B" "float64 (of_int c) = C"
    using float64_of_int [OF a a53] float64_of_int [OF b] float64_of_int [OF c c53]
    by (simp_all add: A_def B_def C_def)
  define eps :: rat where "eps = 1 / 2 ^ 52 + 1 / 2 ^ 106"
  have eps: "0 < eps" "2 ^ 51 * eps < 1" by (simp_all add: eps_def)
  define ratio where "ratio = float64 (A / B)"
  define p where "p = C * ratio"
  define q where "q = C * A / B"
  have fp: "fprod = float64 p" by (simp add: fprod_def fa ratio_def p_def)
  have q0: "0 < q" using pos by (simp add: q_def)
  have r0: "0 \<le> ratio" unfolding ratio_def using pos by (intro float64_nonneg) simp
  then have p0: "0 \<le> p" using pos by (simp add: p_def)
  then have nonneg: "0 \<le> fprod" unfolding fp by (rule float64_nonneg)
  have "\<bar>ratio - A / B\<bar> \<le> \<bar>A / B\<bar> / 2 ^ 53" unfolding ratio_def by (rule float64_err)
  then have "C * \<bar>ratio - A / B\<bar> \<le> C * (A / B / 2 ^ 53)"
    using pos by (intro mult_left_mono) simp_all
  moreover have "\<bar>p - q\<bar> = C * \<bar>ratio - A / B\<bar>"
  proof -
    have "p - q = C * (ratio - A / B)" by (simp add: p_def q_def algebra_simps)
    then show ?thesis using pos by (simp add: abs_mult)
  qed
  ultimately have pq: "\<bar>p - q\<bar> \<le> q / 2 ^ 53" by (simp add: q_def)
  then have pb: "\<bar>p\<bar> \<le> q + q / 2 ^ 53" using q0 by linarith
  have "\<bar>fprod - p\<bar> \<le> \<bar>p\<bar> / 2 ^ 53" unfolding fp by (rule float64_err)
  also have "\<dots> \<le> (q + q / 2 ^ 53) / 2 ^ 53" using pb by (simp add: divide_right_mono)
  finally have "\<bar>fprod - q\<bar> \<le> (q + q / 2 ^ 53) / 2 ^ 53 + q / 2 ^ 53" using pq by linarith
  also have "\<dots> = q * eps" by (simp add: eps_def field_simps)
  finally have err: "\<bar>fprod - q\<bar> \<le> q * eps" .
  have "of_int (c * a) \<le> (2 ^ 51 :: rat)"
    using ca by (metis of_int_le_iff of_int_numeral of_int_power)
  then have N: "C * A \<le> 2 ^ 51" by (simp add: A_def C_def)
  have "C * A * eps \<le> 2 ^ 51 * eps"
    using N eps(1) by (intro mult_right_mono) simp_all
  with eps(2) have "C * A * eps < 1" by linarith
  then have "C * A * eps / B < 1 / B"
    using pos(4) by (rule divide_strict_right_mono)
  moreover have "q * eps = C * A * eps / B" by (simp add: q_def)
  ultimately have small: "q * eps < 1 / B" by simp
  define d m where "d = (c * a) div b" and "m = (c * a) mod b"
  have m: "0 \<le> m" "m \<le> b - 1" using b by (simp_all add: m_def)
  have "c * a = b * d + m" by (simp add: d_def m_def)
  then have "of_int (c * a) = (of_int (b * d + m) :: rat)" by simp
  then have "C * A = B * of_int d + of_int m" by (simp add: A_def B_def C_def)
  then have qd: "q = of_int d + of_int m / B" using pos by (simp add: q_def field_simps)
  have mB: "0 \<le> (of_int m :: rat) / B" "(of_int m :: rat) / B \<le> 1 - 1 / B"
  proof -
    show "0 \<le> (of_int m :: rat) / B" using m pos by simp
    have "(of_int m :: rat) \<le> of_int (b - 1)" using m by (simp only: of_int_le_iff)
    then have "(of_int m :: rat) \<le> B - 1" by (simp add: B_def)
    then have "(of_int m :: rat) / B \<le> (B - 1) / B" using pos by (simp add: divide_right_mono)
    also have "\<dots> = 1 - 1 / B" using pos by (simp add: field_simps)
    finally show "(of_int m :: rat) / B \<le> 1 - 1 / B" .
  qed
  have B1: "1 / B \<le> 1" using pos by simp
  from err small qd mB B1 have lo: "of_int ((c * a) div b) - 1 < fprod"
    unfolding d_def [symmetric] by linarith
  from err small qd mB have hi: "fprod < of_int ((c * a) div b) + 1"
    unfolding d_def [symmetric] by linarith
  from nonneg lo hi
  show "0 \<le> float64 (float64 (of_int c) * float64 (float64 (of_int a) / float64 (of_int b)))"
    and "of_int ((c * a) div b) - 1
          < float64 (float64 (of_int c) * float64 (float64 (of_int a) / float64 (of_int b)))"
    and "float64 (float64 (of_int c) * float64 (float64 (of_int a) / float64 (of_int b)))
          < of_int ((c * a) div b) + 1"
    unfolding fprod_def by blast+
qed

lemma scaled_axis_int:
  fixes a b c :: int
  assumes a: "0 < a" and b: "0 < b" "b < 2 ^ 53" and c: "0 < c" and ca: "c * a \<le> 2 ^ 51"
  shows "\<exists>t. int_of_float64
               (float64 (float64 (of_int c) * float64 (float64 (of_int a) / float64 (of_int b))))
             = Some t \<and> (c * a) div b - 1 \<le> t \<and> t \<le> (c * a) div b"
proof -
  define f where
    "f = float64 (float64 (of_int c) * float64 (float64 (of_int a) / float64 (of_int b)))"
  note s = scaled_axis [OF a b c ca, folded f_def]
  have lo: "(c * a) div b - 1 \<le> \<lfloor>f\<rfloor>"
    using s(2) by (simp add: le_floor_iff)
  have hi: "\<lfloor>f\<rfloor> \<le> (c * a) div b"
    using s(3) by (simp add: floor_le_iff)
  have n0: "0 \<le> c * a" using a c by simp
  have "(c * a) div b \<le> (c * a) div 1"
    using b(1) by (intro zdiv_mono2 n0) simp_all
  then have "(c * a) div b \<le> c * a" by simp
  moreover have "(2::int) ^ 51 < 2 ^ 63" by simp
  ultimately have up: "\<lfloor>f\<rfloor> < 2 ^ 63" using ca hi by linarith
  from s(1) have f0: "0 \<le> \<lfloor>f\<rfloor>" by simp
  have "- (2 ^ 63) \<le> \<lfloor>f\<rfloor> \<and> \<lfloor>f\<rfloor> < 2 ^ 63" using f0 up by linarith
  then have "int_of_float64 f = Some \<lfloor>f\<rfloor>"
    unfolding int_of_float64_def Let_def using s(1) by (simp only: if_True simp_thms)
  with lo hi show ?thesis unfolding f_def by blast
qed

text \<open>
  C9, as the code has it. A target of (0, 0) gives the source dimensions and a target
  with both axes non-zero gives the target. With one axis 0, that axis is
  \<^verbatim>\<open>int(float64(src) * (float64(target) / float64(src')))\<close>: the fraction is dropped, not
  rounded, and each \<^verbatim>\<open>float64\<close> operation rounds, so for positive sizes (with the product
  at most \<open>2^51\<close>) the computed axis is the integer quotient \<open>src * target div src'\<close>
  or one less, never more. The three examples of the specification come out as stated.
\<close>

theorem ScaleDimensions_truncates:
  "ScaleDimensions srcW srcH 0 0 = Some (srcW, srcH)
   \<and> (tW \<noteq> 0 \<and> tH \<noteq> 0 \<longrightarrow> ScaleDimensions srcW srcH tW tH = Some (tW, tH))
   \<and> (0 < srcW \<and> srcW < 2 ^ 53 \<and> 0 < srcH \<and> 0 < tW \<and> srcH * tW \<le> 2 ^ 51
        \<longrightarrow> (\<exists>h. ScaleDimensions srcW srcH tW 0 = Some (tW, h)
                 \<and> (srcH * tW) div srcW - 1 \<le> h \<and> h \<le> (srcH * tW) div srcW))
   \<and> (0 < srcH \<and> srcH < 2 ^ 53 \<and> 0 < srcW \<and> 0 < tH \<and> srcW * tH \<le> 2 ^ 51
        \<longrightarrow> (\<exists>w. ScaleDimensions srcW srcH 0 tH = Some (w, tH)
                 \<and> (srcW * tH) div srcH - 1 \<le> w \<and> w \<le> (srcW * tH) div srcH))
   \<and> ScaleDimensions 800 600 400 0 = Some (400, 300)
   \<and> ScaleDimensions 800 600 0 300 = Some (400, 300)
   \<and> ScaleDimensions 800 600 200 200 = Some (200, 200)"
proof (intro conjI impI)
  show "ScaleDimensions srcW srcH 0 0 = Some (srcW, srcH)"
    by (simp add: ScaleDimensions_def)
  show "ScaleDimensions srcW srcH tW tH = Some (tW, tH)" if "tW \<noteq> 0 \<and> tH \<noteq> 0"
    using that by (simp add: ScaleDimensions_def)
  show "\<exists>h. ScaleDimensions srcW srcH tW 0 = Some (tW, h)
                 \<and> (srcH * tW) div srcW - 1 \<le> h \<and> h \<le> (srcH * tW) div srcW"
    if "0 < srcW \<and> srcW < 2 ^ 53 \<and> 0 < srcH \<and> 0 < tW \<and> srcH * tW \<le> 2 ^ 51"
  proof -
    from that scaled_axis_int [of tW srcW srcH]
    obtain t where "int_of_float64
        (float64 (float64 (of_int srcH) * float64 (float64 (of_int tW) / float64 (of_int srcW))))
          = Some t" "(srcH * tW) div srcW - 1 \<le> t" "t \<le> (srcH * tW) div srcW"
      by blast
    with that show ?thesis by (simp add: ScaleDimensions_def Let_def)
  qed
  show "\<exists>w. ScaleDimensions srcW srcH 0 tH = Some (w, tH)
                 \<and> (srcW * tH) div srcH - 1 \<le> w \<and> w \<le> (srcW * tH) div srcH"
    if "0 < srcH \<and> srcH < 2 ^ 53 \<and> 0 < srcW \<and> 0 < tH \<and> srcW * tH \<le> 2 ^ 51"
  proof -
    from that scaled_axis_int [of tH srcH srcW]
    obtain t where "int_of_float64
        (float64 (float64 (of_int srcW) * float64 (float64 (of_int tH) / float64 (of_int srcH))))
          = Some t" "(srcW * tH) div srcH - 1 \<le> t" "t \<le> (srcW * tH) div srcH"
      by blast
    with that show ?thesis by (simp add: ScaleDimensions_def Let_def)
  qed
  show "ScaleDimensions 800 600 400 0 = Some (400, 300)" by code_simp
  show "ScaleDimensions 800 600 0 300 = Some (400, 300)" by code_simp
  show "ScaleDimensions 800 600 200 200 = Some (200, 200)" by code_simp
qed

theorem ScaleDimensions_truncates_witness:
  "ScaleDimensions 640 480 320 240 = Some (320, 240)
   \<and> (\<exists>h. ScaleDimensions 3 15 49 0 = Some (49, h) \<and> 244 \<le> h \<and> h \<le> 245)
   \<and> (\<exists>w. ScaleDimensions 3 1 0 2 = Some (w, 2) \<and> 5 \<le> w \<and> w \<le> 6)"
proof -
  note t = ScaleDimensions_truncates [of 3 15 49 0]
  have "(0::int) < 3 \<and> (3::int) < 2 ^ 53 \<and> (0::int) < 15 \<and> (0::int) < 49 \<and> (15::int) * 49 \<le> 2 ^ 51"
    by simp
  with t have "\<exists>h. ScaleDimensions 3 15 49 0 = Some (49, h)
      \<and> (15 * 49) div 3 - 1 \<le> h \<and> h \<le> (15 * 49) div 3"
    by blast
  then have c2: "\<exists>h. ScaleDimensions 3 15 49 0 = Some (49, h) \<and> 244 \<le> h \<and> h \<le> 245"
    by simp
  note u = ScaleDimensions_truncates [of 3 1 0 2]
  have "(0::int) < 1 \<and> (1::int) < 2 ^ 53 \<and> (0::int) < 3 \<and> (0::int) < 2 \<and> (3::int) * 2 \<le> 2 ^ 51"
    by simp
  with u have "\<exists>w. ScaleDimensions 3 1 0 2 = Some (w, 2)
      \<and> (3 * 2) div 1 - 1 \<le> w \<and> w \<le> (3 * 2) div 1"
    by blast
  then have c3: "\<exists>w. ScaleDimensions 3 1 0 2 = Some (w, 2) \<and> 5 \<le> w \<and> w \<le> 6"
    by simp
  have "(320::int) \<noteq> 0 \<and> (240::int) \<noteq> 0" by simp
  with ScaleDimensions_truncates [of 640 480 320 240]
  have c1: "ScaleDimensions 640 480 320 240 = Some (320, 240)" by blast
  from c1 c2 c3 show ?thesis by (intro conjI)
qed

text \<open>
  C9 as stated fails: from a source of 3 by 1 and the target (2, 0) the height is 0, the
  fraction of \<open>1 \<times> 2 / 3\<close> dropped, where rounding gives 1.
\<close>

theorem ScaleDimensions_round_counterexample:
  "ScaleDimensions 3 1 2 0 = Some (2, 0) \<and> round ((1 :: rat) * 2 / 3) = 1"
proof
  show "ScaleDimensions 3 1 2 0 = Some (2, 0)" by code_simp
  show "round ((1 :: rat) * 2 / 3) = 1" by (simp add: round_def floor_eq_iff)
qed

end
